theory Spec2Isabelle
  imports Main
begin

section \<open>Python strings and the character classes of \<open>re\<close>\<close>

text \<open>
  A Python \<open>str\<close> is a sequence of Unicode code points; offsets reported by
  \<open>re\<close> count code points. Text is therefore a list of natural numbers.
  \<open>py\<close> turns an ASCII literal into such a list.
\<close>

type_synonym pystr = "nat list"

definition py :: "string \<Rightarrow> pystr" where
  "py s = map of_char s"

text \<open>
  For \<open>str\<close> patterns \<open>\s\<close> and \<open>\w\<close> are Unicode aware. Below 128 the
  classes are fixed: \<open>\s\<close> is TAB, LF, VT, FF, CR, the separators 28..31 and
  the blank; \<open>\w\<close> is \<open>[a-zA-Z0-9_]\<close>. The classification of the code points
  from 128 upwards comes from the Unicode database of the interpreter, which is not
  part of the repository: it is a parameter of the model.
\<close>

record unicode_db =
  uni_space :: "nat \<Rightarrow> bool"
  uni_alnum :: "nat \<Rightarrow> bool"

definition is_space :: "unicode_db \<Rightarrow> nat \<Rightarrow> bool" where
  "is_space db c =
     (if c < 128 then (9 \<le> c \<and> c \<le> 13) \<or> (28 \<le> c \<and> c \<le> 32)
      else uni_space db c)"

definition is_word :: "unicode_db \<Rightarrow> nat \<Rightarrow> bool" where
  "is_word db c =
     (if c < 128
      then (48 \<le> c \<and> c \<le> 57) \<or> (65 \<le> c \<and> c \<le> 90) \<or> c = 95 \<or> (97 \<le> c \<and> c \<le> 122)
      else uni_alnum db c)"

section \<open>The fragment of regular expressions used by the scripts\<close>

text \<open>
  Both patterns are sequences of single-character items, some of them under a greedy
  \<open>*\<close> or \<open>+\<close>, and one \<open>^\<close> compiled with \<open>re.MULTILINE\<close>. A character set
  is a list of alternatives (\<open>[\w\\]\<close> is \<open>[Word, Lit 92]\<close>).
\<close>

datatype catom = Lit nat | Space | Word

type_synonym cset = "catom list"

datatype item = Bol | One cset | Star cset | Plus cset

fun in_atom :: "unicode_db \<Rightarrow> catom \<Rightarrow> nat \<Rightarrow> bool" where
  "in_atom db (Lit a) c = (c = a)"
| "in_atom db Space c = is_space db c"
| "in_atom db Word c = is_word db c"

definition in_cset :: "unicode_db \<Rightarrow> cset \<Rightarrow> nat \<Rightarrow> bool" where
  "in_cset db cs c = list_ex (\<lambda>a. in_atom db a c) cs"

text \<open>\<open>^\<close> under \<open>re.MULTILINE\<close>: the start of the text, or just after a line feed.\<close>

definition at_bol :: "pystr \<Rightarrow> nat \<Rightarrow> bool" where
  "at_bol tx pos = (pos = 0 \<or> (pos \<le> length tx \<and> tx ! (pos - 1) = 10))"

text \<open>The length of the longest run of characters of a set, starting at \<open>pos\<close>.\<close>

definition run :: "unicode_db \<Rightarrow> cset \<Rightarrow> pystr \<Rightarrow> nat \<Rightarrow> nat" where
  "run db cs tx pos = length (takeWhile (in_cset db cs) (drop pos tx))"

text \<open>
  Greedy repetition with backtracking: the continuation \<open>f\<close> is tried after the
  longest run first, then after one character less, down to the position \<open>lo\<close>.
\<close>

primrec try_down :: "(nat \<Rightarrow> nat option) \<Rightarrow> nat \<Rightarrow> nat \<Rightarrow> nat option" where
  "try_down f lo 0 = f lo"
| "try_down f lo (Suc d) =
     (case f (lo + Suc d) of Some e \<Rightarrow> Some e | None \<Rightarrow> try_down f lo d)"

text \<open>
  \<open>match_here db items tx pos\<close> is the end offset of the match of the whole
  sequence that starts exactly at \<open>pos\<close>, if there is one.
\<close>

fun match_here :: "unicode_db \<Rightarrow> item list \<Rightarrow> pystr \<Rightarrow> nat \<Rightarrow> nat option" where
  "match_here db [] tx pos = Some pos"
| "match_here db (Bol # r) tx pos =
     (if at_bol tx pos then match_here db r tx pos else None)"
| "match_here db (One cs # r) tx pos =
     (if pos < length tx \<and> in_cset db cs (tx ! pos)
      then match_here db r tx (Suc pos) else None)"
| "match_here db (Star cs # r) tx pos =
     try_down (\<lambda>k. match_here db r tx k) pos (run db cs tx pos)"
| "match_here db (Plus cs # r) tx pos =
     (case run db cs tx pos of
        0 \<Rightarrow> None
      | Suc n \<Rightarrow> try_down (\<lambda>k. match_here db r tx k) (Suc pos) n)"

text \<open>
  The scan of \<open>re.search\<close>: the match is tried at \<open>pos\<close>, then at every later
  offset up to \<open>pos + n\<close>; the first offset that matches wins. The result is the
  span \<open>(start, end)\<close> of the match object.
\<close>

primrec scan :: "unicode_db \<Rightarrow> item list \<Rightarrow> pystr \<Rightarrow> nat \<Rightarrow> nat \<Rightarrow> (nat \<times> nat) option" where
  "scan db items tx 0 pos =
     (case match_here db items tx pos of Some e \<Rightarrow> Some (pos, e) | None \<Rightarrow> None)"
| "scan db items tx (Suc n) pos =
     (case match_here db items tx pos of
        Some e \<Rightarrow> Some (pos, e)
      | None \<Rightarrow> scan db items tx n (Suc pos))"

definition re_search :: "unicode_db \<Rightarrow> item list \<Rightarrow> pystr \<Rightarrow> (nat \<times> nat) option" where
  "re_search db items tx = scan db items tx (length tx) 0"

text \<open>A match never ends before it starts, and a scan never starts before \<open>pos\<close>.\<close>

lemma try_down_Some:
  "try_down f lo d = Some e \<Longrightarrow> \<exists>k. lo \<le> k \<and> k \<le> lo + d \<and> f k = Some e"
proof (induction d)
  case 0
  then show ?case by auto
next
  case (Suc d)
  show ?case
  proof (cases "f (lo + Suc d)")
    case None
    with Suc.prems have "try_down f lo d = Some e" by simp
    from Suc.IH [OF this] show ?thesis by auto
  next
    case (Some a)
    with Suc.prems have "f (lo + Suc d) = Some e" by simp
    then show ?thesis by (intro exI [of _ "lo + Suc d"]) simp
  qed
qed

lemma match_here_start_le:
  "match_here db items tx pos = Some e \<Longrightarrow> pos \<le> e"
proof (induction db items tx pos arbitrary: e rule: match_here.induct)
  case (1 db tx pos)
  then show ?case by simp
next
  case (2 db r tx pos)
  then show ?case by (simp split: if_splits)
next
  case (3 db cs r tx pos)
  then have "Suc pos \<le> e" by (simp split: if_splits)
  then show ?case by simp
next
  case (4 db cs r tx pos)
  from "4.prems" obtain k where "pos \<le> k" "match_here db r tx k = Some e"
    by (auto dest: try_down_Some)
  with "4.IH" show ?case by fastforce
next
  case (5 db cs r tx pos)
  from "5.prems" obtain n where n: "run db cs tx pos = Suc n"
    and t: "try_down (\<lambda>k. match_here db r tx k) (Suc pos) n = Some e"
    by (auto split: nat.splits)
  from try_down_Some [OF t] obtain k where "Suc pos \<le> k" "match_here db r tx k = Some e"
    by auto
  with "5.IH" [OF n] show ?case by fastforce
qed

lemma scan_span:
  "scan db items tx n pos = Some (s, e) \<Longrightarrow> pos \<le> s \<and> s \<le> pos + n \<and> s \<le> e"
proof (induction n arbitrary: pos)
  case 0
  then show ?case by (auto split: option.splits dest: match_here_start_le)
next
  case (Suc n)
  show ?case
  proof (cases "match_here db items tx pos")
    case None
    with Suc.prems have "scan db items tx n (Suc pos) = Some (s, e)" by simp
    from Suc.IH [OF this] show ?thesis by simp
  next
    case (Some a)
    with Suc.prems show ?thesis by (auto dest: match_here_start_le)
  qed
qed

text \<open>
  \<open>re.finditer\<close>: the spans of the non-overlapping matches, left to right. After a
  match the scan resumes at its end. (After an empty match the scanner has to
  advance; neither pattern below can match the empty string.)
\<close>

function finditer_from :: "unicode_db \<Rightarrow> item list \<Rightarrow> pystr \<Rightarrow> nat \<Rightarrow> (nat \<times> nat) list" where
  "finditer_from db items tx pos =
     (if length tx < pos then []
      else case scan db items tx (length tx - pos) pos of
             None \<Rightarrow> []
           | Some (s, e) \<Rightarrow> (s, e) # finditer_from db items tx (if e = s then Suc e else e))"
  by pat_completeness auto
termination
proof (relation "measure (\<lambda>(db, items, tx, pos). Suc (length tx) - pos)")
  show "wf (measure (\<lambda>(db, items, tx, pos). Suc (length tx) - pos))" by simp
next
  fix db :: unicode_db and items :: "item list" and tx :: pystr and pos x2 s e
  assume a: "\<not> length tx < pos"
    and b: "scan db items tx (length tx - pos) pos = Some x2"
    and c: "(s, e) = x2"
  from b c have "scan db items tx (length tx - pos) pos = Some (s, e)" by simp
  from scan_span [OF this] have "pos \<le> s" "s \<le> e" by simp_all
  with a show "((db, items, tx, if e = s then Suc e else e), db, items, tx, pos)
      \<in> measure (\<lambda>(db, items, tx, pos). Suc (length tx) - pos)"
    by auto
qed

definition re_finditer :: "unicode_db \<Rightarrow> item list \<Rightarrow> pystr \<Rightarrow> (nat \<times> nat) list" where
  "re_finditer db items tx = finditer_from db items tx 0"

section \<open>The two patterns\<close>

definition lits :: "string \<Rightarrow> item list" where
  "lits s = map (\<lambda>c. One [Lit (of_char c)]) s"

text \<open>\<^verbatim>\<open>r'^\s*use\s+[\w\\]+'\<close> with \<open>re.MULTILINE\<close> (92 is the backslash).\<close>

definition use_pattern :: "item list" where
  "use_pattern = [Bol, Star [Space]] @ lits ''use'' @ [Plus [Space], Plus [Word, Lit 92]]"

text \<open>\<^verbatim>\<open>r'defined\(\s*[\'"]ABSPATH[\'"]\s*\)'\<close> (39 and 34 are the two quotes).\<close>

definition abspath_pattern :: "item list" where
  "abspath_pattern =
     lits ''defined('' @ [Star [Space], One [Lit 39, Lit 34]] @ lits ''ABSPATH'' @
     [One [Lit 39, Lit 34], Star [Space]] @ lits '')''"

section \<open>check_abspath_position.py\<close>

text \<open>
  The world the script runs in: what \<open>open(path, 'r', encoding='utf-8')\<close> followed
  by \<open>read()\<close> gives for each path (the decoded text, or the exception raised), and
  the lines written to standard output so far.
\<close>

datatype py_exception =
  FileNotFoundError | PermissionError | IsADirectoryError | UnicodeDecodeError | OtherException

record world =
  files :: "pystr \<Rightarrow> py_exception + pystr"
  stdout :: "pystr list"

text \<open>
  Lines 14 to 25 of \<open>check_file\<close>, the part that works on the text read (the same
  two searches and the same comparison stand in debug_check.py).
\<close>

definition detection_rule :: "unicode_db \<Rightarrow> pystr \<Rightarrow> pystr \<Rightarrow> pystr option" where
  "detection_rule db content filepath =
     (let use_statements = map fst (re_finditer db use_pattern content);
          abspath_check = re_search db abspath_pattern content
      in if use_statements = [] \<or> abspath_check = None then None
         else
           let abspath_pos = fst (the abspath_check);
               first_use_pos = hd use_statements
           in if abspath_pos < first_use_pos then Some filepath else None)"

definition check_file :: "unicode_db \<Rightarrow> pystr \<Rightarrow> world \<Rightarrow> pystr option \<times> world" where
  "check_file db filepath w =
     (case files w filepath of
        Inl exn \<Rightarrow> (None, w)
      | Inr content \<Rightarrow> (detection_rule db content filepath, w))"

text \<open>\<open>str.endswith\<close>, \<open>os.path.join\<close> of two components (POSIX; 47 is the slash),
  \<open>print\<close>, and the truth value of \<open>res\<close> in \<open>if res:\<close>.\<close>

definition endswith :: "pystr \<Rightarrow> pystr \<Rightarrow> bool" where
  "endswith s suf = (length suf \<le> length s \<and> drop (length s - length suf) s = suf)"

definition os_path_join :: "pystr \<Rightarrow> pystr \<Rightarrow> pystr" where
  "os_path_join a p =
     (if p \<noteq> [] \<and> hd p = 47 then p
      else if a = [] \<or> last a = 47 then a @ p
      else a @ [47] @ p)"

definition print :: "pystr \<Rightarrow> world \<Rightarrow> world" where
  "print line w = w\<lparr>stdout := stdout w @ [line]\<rparr>"

definition truthy :: "pystr option \<Rightarrow> bool" where
  "truthy res = (case res of None \<Rightarrow> False | Some s \<Rightarrow> s \<noteq> [])"

text \<open>The body of the inner loop, the inner loop over \<open>filenames\<close>, and the outer
  loop over the triples \<open>(dirpath, dirnames, filenames)\<close> that \<open>os.walk\<close> yields.\<close>

definition walk_file :: "unicode_db \<Rightarrow> pystr \<Rightarrow> pystr \<Rightarrow> world \<Rightarrow> world" where
  "walk_file db dirpath filename w =
     (if endswith filename (py ''.php'') \<and> filename \<noteq> py ''index.php''
      then
        let filepath = os_path_join dirpath filename;
            (res, w1) = check_file db filepath w
        in if truthy res then print (the res) w1 else w1
      else w)"

fun walk_files :: "unicode_db \<Rightarrow> pystr \<Rightarrow> pystr list \<Rightarrow> world \<Rightarrow> world" where
  "walk_files db dirpath [] w = w"
| "walk_files db dirpath (filename # filenames) w =
     walk_files db dirpath filenames (walk_file db dirpath filename w)"

fun walker :: "unicode_db \<Rightarrow> (pystr \<times> pystr list \<times> pystr list) list \<Rightarrow> world \<Rightarrow> world" where
  "walker db [] w = w"
| "walker db ((dirpath, dirnames, filenames) # rest) w =
     walker db rest (walk_files db dirpath filenames w)"

text \<open>The lines one run of the script adds to standard output.\<close>

definition printed ::
  "unicode_db \<Rightarrow> (pystr \<times> pystr list \<times> pystr list) list \<Rightarrow> world \<Rightarrow> pystr list" where
  "printed db walk w = drop (length (stdout w)) (stdout (walker db walk w))"

text \<open>The \<open>(dirpath, filename)\<close> pairs a walk enumerates.\<close>

definition entries :: "(pystr \<times> pystr list \<times> pystr list) list \<Rightarrow> (pystr \<times> pystr) set" where
  "entries walk = (\<Union>(dirpath, dirnames, filenames) \<in> set walk. {dirpath} \<times> set filenames)"

text \<open>A file of the walk for which the loop body reaches \<open>print\<close>.\<close>

definition flagged :: "unicode_db \<Rightarrow> world \<Rightarrow> pystr \<Rightarrow> pystr \<Rightarrow> bool" where
  "flagged db w dirpath filename =
     (endswith filename (py ''.php'') \<and> filename \<noteq> py ''index.php'' \<and>
      fst (check_file db (os_path_join dirpath filename) w) = Some (os_path_join dirpath filename))"

section \<open>What a match is\<close>

text \<open>
  The matcher above is the program. The relation below says what it computes:
  \<open>matches db items tx pos e\<close> holds when the items can consume exactly the
  characters from \<open>pos\<close> up to \<open>e\<close>, whatever the order in which a backtracking
  search would find that out. \<open>all_in P tx lo hi\<close> says that the offsets from
  \<open>lo\<close> up to \<open>hi\<close> lie in the text and hold characters of \<open>P\<close>.
\<close>

definition all_in :: "(nat \<Rightarrow> bool) \<Rightarrow> pystr \<Rightarrow> nat \<Rightarrow> nat \<Rightarrow> bool" where
  "all_in P tx lo hi = (\<forall>i. lo \<le> i \<and> i < hi \<longrightarrow> i < length tx \<and> P (tx ! i))"

fun matches :: "unicode_db \<Rightarrow> item list \<Rightarrow> pystr \<Rightarrow> nat \<Rightarrow> nat \<Rightarrow> bool" where
  "matches db [] tx pos e = (e = pos)"
| "matches db (Bol # r) tx pos e = (at_bol tx pos \<and> matches db r tx pos e)"
| "matches db (One cs # r) tx pos e =
     (pos < length tx \<and> in_cset db cs (tx ! pos) \<and> matches db r tx (Suc pos) e)"
| "matches db (Star cs # r) tx pos e =
     (\<exists>k. pos \<le> k \<and> all_in (in_cset db cs) tx pos k \<and>
          matches db r tx k e)"
| "matches db (Plus cs # r) tx pos e =
     (\<exists>k. Suc pos \<le> k \<and> all_in (in_cset db cs) tx pos k \<and>
          matches db r tx k e)"

text \<open>The same on words: \<open>slice tx lo hi\<close> is \<open>tx[lo:hi]\<close>, and \<open>accepts\<close> is
  the language of a sequence of items without \<open>^\<close>.\<close>

definition slice :: "pystr \<Rightarrow> nat \<Rightarrow> nat \<Rightarrow> pystr" where
  "slice tx lo hi = take (hi - lo) (drop lo tx)"

fun accepts :: "unicode_db \<Rightarrow> item list \<Rightarrow> pystr \<Rightarrow> bool" where
  "accepts db [] s = (s = [])"
| "accepts db (Bol # r) s = False"
| "accepts db (One cs # r) s = (\<exists>c s'. s = c # s' \<and> in_cset db cs c \<and> accepts db r s')"
| "accepts db (Star cs # r) s =
     (\<exists>ws s'. s = ws @ s' \<and> (\<forall>c\<in>set ws. in_cset db cs c) \<and> accepts db r s')"
| "accepts db (Plus cs # r) s =
     (\<exists>ws s'. ws \<noteq> [] \<and> s = ws @ s' \<and> (\<forall>c\<in>set ws. in_cset db cs c) \<and> accepts db r s')"

text \<open>
  The guard idiom as a set of words: \<open>defined(\<close>, white space, a quote,
  \<open>ABSPATH\<close>, a quote, white space, \<open>)\<close>. The two quotes are chosen
  independently of each other. \<open>guard_at db tx s e\<close>: such a word stands in
  \<open>tx\<close> from \<open>s\<close> up to \<open>e\<close>.
\<close>

definition guard_text :: "unicode_db \<Rightarrow> pystr \<Rightarrow> bool" where
  "guard_text db s =
     (\<exists>ws1 q1 q2 ws2.
        s = py ''defined('' @ ws1 @ [q1] @ py ''ABSPATH'' @ [q2] @ ws2 @ py '')'' \<and>
        (\<forall>c\<in>set ws1. is_space db c) \<and> (q1 = 39 \<or> q1 = 34) \<and>
        (q2 = 39 \<or> q2 = 34) \<and> (\<forall>c\<in>set ws2. is_space db c))"

definition guard_at :: "unicode_db \<Rightarrow> pystr \<Rightarrow> nat \<Rightarrow> nat \<Rightarrow> bool" where
  "guard_at db tx s e = (s \<le> e \<and> e \<le> length tx \<and> guard_text db (take (e - s) (drop s tx)))"

section \<open>Sample inputs\<close>

text \<open>A database that classifies no code point from 128 upwards as space or as
  alphanumeric; the two scenario texts of the specification; a world with one
  readable file.\<close>

definition ascii_db :: unicode_db where
  "ascii_db = \<lparr>uni_space = (\<lambda>c. False), uni_alnum = (\<lambda>c. False)\<rparr>"

definition scenario_A :: pystr where
  "scenario_A =
     py ''<?php\<newline>if (!defined('ABSPATH')) { return; }\<newline>use Foo'' @ [92] @ py ''Bar;\<newline>''"

definition scenario_B :: pystr where
  "scenario_B =
     py ''<?php\<newline>use Foo'' @ [92] @ py ''Bar;\<newline>if (!defined('ABSPATH')) { return; }\<newline>''"

definition one_file :: "pystr \<Rightarrow> pystr \<Rightarrow> world" where
  "one_file path content =
     \<lparr>files = (\<lambda>p. if p = path then Inr content else Inl FileNotFoundError), stdout = []\<rparr>"

text \<open>A tree in which \<open>index.php\<close> has the content of scenario A, and a tree
  in which one of two files cannot be decoded.\<close>

definition violating_tree :: world where
  "violating_tree =
     \<lparr>files = (\<lambda>p. if p = py ''src/index.php'' \<or> p = py ''src/a.php'' then Inr scenario_A
                   else Inl FileNotFoundError),
      stdout = []\<rparr>"

definition unreadable_tree :: world where
  "unreadable_tree =
     \<lparr>files = (\<lambda>p. if p = py ''src/a.php'' then Inr scenario_A
                   else if p = py ''src/b.php'' then Inl UnicodeDecodeError
                   else Inl FileNotFoundError),
      stdout = []\<rparr>"

text \<open>Text with one more use statement and one more guard, and a guard whose
  quotes differ.\<close>

definition later_occurrences :: pystr where
  "later_occurrences = py ''use Baz;\<newline>if (!defined('ABSPATH')) exit;\<newline>''"

definition mismatched_guard :: pystr where
  "mismatched_guard = py ''defined('ABSPATH'' @ [34] @ py '')''"

section \<open>The first match of \<open>finditer\<close> is the match of \<open>search\<close>\<close>

lemma re_finditer_unfold:
  "re_finditer db items tx =
     (case re_search db items tx of
        None \<Rightarrow> []
      | Some (s, e) \<Rightarrow> (s, e) # finditer_from db items tx (if e = s then Suc e else e))"
  by (simp add: re_finditer_def re_search_def)

lemma re_finditer_Nil: "(re_finditer db items tx = []) = (re_search db items tx = None)"
  by (simp add: re_finditer_unfold split: option.splits)

lemma re_finditer_hd:
  "re_search db items tx = Some (s, e) \<Longrightarrow> hd (map fst (re_finditer db items tx)) = s"
  by (simp add: re_finditer_unfold)

lemma re_finditer_Cons:
  "re_finditer db items tx = (s, e) # ms \<Longrightarrow> re_search db items tx = Some (s, e)"
  by (simp add: re_finditer_unfold split: option.splits prod.splits)

lemma detection_rule_eq:
  "detection_rule db content filepath =
     (case (re_search db use_pattern content, re_search db abspath_pattern content) of
        (Some (u, ue), Some (g, ge)) \<Rightarrow> if g < u then Some filepath else None
      | _ \<Rightarrow> None)"
  by (auto simp: detection_rule_def Let_def re_finditer_Nil re_finditer_hd split: option.splits)

section \<open>The walker writes the flagged paths and nothing else\<close>

lemma check_file_world: "snd (check_file db filepath w) = w"
  by (simp add: check_file_def split: sum.splits)

lemma check_file_cases:
  "fst (check_file db filepath w) = None \<or> fst (check_file db filepath w) = Some filepath"
  by (simp add: check_file_def detection_rule_def Let_def split: sum.splits)

lemma check_file_files:
  "files w1 filepath = files w2 filepath \<Longrightarrow>
   fst (check_file db filepath w1) = fst (check_file db filepath w2)"
  by (simp add: check_file_def split: sum.splits)

lemma endswith_nonempty: "endswith filename (py ''.php'') \<Longrightarrow> filename \<noteq> []"
  by (auto simp: endswith_def py_def)

lemma os_path_join_nonempty: "filename \<noteq> [] \<Longrightarrow> os_path_join dirpath filename \<noteq> []"
  by (simp add: os_path_join_def)

lemma walk_file_eq:
  "walk_file db dirpath filename w =
     (if flagged db w dirpath filename then print (os_path_join dirpath filename) w else w)"
proof (cases "endswith filename (py ''.php'') \<and> filename \<noteq> py ''index.php''")
  case False
  then show ?thesis by (auto simp: walk_file_def flagged_def)
next
  case True
  let ?p = "os_path_join dirpath filename"
  from True have ne: "?p \<noteq> []"
    by (simp add: endswith_nonempty os_path_join_nonempty)
  obtain res w1 where c: "check_file db ?p w = (res, w1)" by (cases "check_file db ?p w")
  from check_file_world [of db ?p w] c have w1: "w1 = w" by simp
  from check_file_cases [of db ?p w] c have "res = None \<or> res = Some ?p" by simp
  then show ?thesis
  proof
    assume "res = None"
    with True c w1 show ?thesis by (simp add: walk_file_def flagged_def truthy_def)
  next
    assume "res = Some ?p"
    with True c w1 ne show ?thesis by (simp add: walk_file_def flagged_def truthy_def)
  qed
qed

lemma flagged_files: "files w1 = files w2 \<Longrightarrow> flagged db w1 = flagged db w2"
proof (intro ext)
  fix d f
  assume "files w1 = files w2"
  then have "files w1 (os_path_join d f) = files w2 (os_path_join d f)" by simp
  from check_file_files [OF this] show "flagged db w1 d f = flagged db w2 d f"
    by (simp add: flagged_def)
qed

lemma walk_file_files: "files (walk_file db dirpath filename w) = files w"
  by (simp add: walk_file_eq print_def)

lemma walk_files_eq:
  "walk_files db dirpath filenames w =
     w\<lparr>stdout := stdout w @ map (os_path_join dirpath) (filter (flagged db w dirpath) filenames)\<rparr>"
proof (induction filenames arbitrary: w)
  case Nil
  then show ?case by simp
next
  case (Cons f fs)
  let ?w = "walk_file db dirpath f w"
  have fl: "flagged db ?w = flagged db w"
    by (rule flagged_files) (rule walk_file_files)
  have "walk_files db dirpath (f # fs) w = walk_files db dirpath fs ?w" by simp
  also have "\<dots> = ?w\<lparr>stdout := stdout ?w @ map (os_path_join dirpath) (filter (flagged db w dirpath) fs)\<rparr>"
    by (simp add: Cons.IH fl)
  also have "\<dots> = w\<lparr>stdout := stdout w @ map (os_path_join dirpath) (filter (flagged db w dirpath) (f # fs))\<rparr>"
    by (simp add: walk_file_eq print_def)
  finally show ?case .
qed

lemma walker_eq:
  "walker db walk w =
     w\<lparr>stdout := stdout w @
        concat (map (\<lambda>(d, ds, fs). map (os_path_join d) (filter (flagged db w d) fs)) walk)\<rparr>"
proof (induction walk arbitrary: w)
  case Nil
  then show ?case by simp
next
  case (Cons t walk)
  obtain d ds fs where t: "t = (d, ds, fs)" by (cases t)
  let ?w = "walk_files db d fs w"
  have "files ?w = files w" by (simp add: walk_files_eq)
  then have fl: "flagged db ?w = flagged db w" by (rule flagged_files)
  have "walker db (t # walk) w = walker db walk ?w" by (simp add: t)
  also have "\<dots> = ?w\<lparr>stdout := stdout ?w @
        concat (map (\<lambda>(d, ds, fs). map (os_path_join d) (filter (flagged db w d) fs)) walk)\<rparr>"
    by (simp add: Cons.IH fl)
  also have "\<dots> = w\<lparr>stdout := stdout w @
        concat (map (\<lambda>(d, ds, fs). map (os_path_join d) (filter (flagged db w d) fs)) (t # walk))\<rparr>"
    by (simp add: walk_files_eq t)
  finally show ?case .
qed

lemma printed_eq:
  "printed db walk w =
     concat (map (\<lambda>(d, ds, fs). map (os_path_join d) (filter (flagged db w d) fs)) walk)"
  by (simp add: printed_def walker_eq)

lemma set_printed:
  "set (printed db walk w) =
     (\<lambda>(d, f). os_path_join d f) ` {(d, f). (d, f) \<in> entries walk \<and> flagged db w d f}"
  by (auto simp: printed_eq entries_def image_iff) force+

section \<open>The matcher finds exactly the matches\<close>

lemma run_iff:
  assumes "pos \<le> k"
  shows "(k \<le> pos + run db cs tx pos) = all_in (in_cset db cs) tx pos k"
  unfolding all_in_def
proof
  let ?xs = "drop pos tx"
  let ?P = "in_cset db cs"
  assume le: "k \<le> pos + run db cs tx pos"
  show "\<forall>i. pos \<le> i \<and> i < k \<longrightarrow> i < length tx \<and> in_cset db cs (tx ! i)"
  proof (intro allI impI)
    fix i assume i: "pos \<le> i \<and> i < k"
    with le have j: "i - pos < length (takeWhile ?P ?xs)" unfolding run_def by linarith
    also have "\<dots> \<le> length ?xs" by (rule length_takeWhile_le)
    finally have il: "i < length tx" using i by simp
    from j have "takeWhile ?P ?xs ! (i - pos) \<in> set (takeWhile ?P ?xs)" by (rule nth_mem)
    then have "?P (takeWhile ?P ?xs ! (i - pos))" by (auto dest: set_takeWhileD)
    with j have "?P (?xs ! (i - pos))" by (simp add: takeWhile_nth)
    with i il show "i < length tx \<and> in_cset db cs (tx ! i)" by simp
  qed
next
  let ?xs = "drop pos tx"
  let ?P = "in_cset db cs"
  assume a: "\<forall>i. pos \<le> i \<and> i < k \<longrightarrow> i < length tx \<and> in_cset db cs (tx ! i)"
  have len: "k - pos \<le> length ?xs"
  proof (cases "k = pos")
    case True then show ?thesis by simp
  next
    case False
    with assms have "pos \<le> k - 1 \<and> k - 1 < k" by simp
    with a have "k - 1 < length tx" by blast
    then show ?thesis by simp
  qed
  have "\<And>j. j < k - pos \<Longrightarrow> ?P (?xs ! j)"
  proof -
    fix j assume j: "j < k - pos"
    then have "pos \<le> pos + j \<and> pos + j < k" by simp
    with a have "pos + j < length tx \<and> ?P (tx ! (pos + j))" by blast
    then show "?P (?xs ! j)" by simp
  qed
  then have "k - pos \<le> length (takeWhile ?P ?xs)"
    using len by (intro length_takeWhile_less_P_nth) auto
  then show "k \<le> pos + run db cs tx pos" by (simp add: run_def)
qed

lemma try_down_None:
  "(try_down f lo d = None) = (\<forall>k. lo \<le> k \<and> k \<le> lo + d \<longrightarrow> f k = None)"
proof (induction d)
  case 0
  then show ?case by (auto simp: le_antisym)
next
  case (Suc d)
  have "(\<forall>k. lo \<le> k \<and> k \<le> lo + Suc d \<longrightarrow> f k = None) =
        (f (lo + Suc d) = None \<and> (\<forall>k. lo \<le> k \<and> k \<le> lo + d \<longrightarrow> f k = None))"
    by (auto simp: le_Suc_eq)
  with Suc.IH show ?case by (simp split: option.splits)
qed

lemma match_here_sound:
  "match_here db items tx pos = Some e \<Longrightarrow> matches db items tx pos e"
proof (induction db items tx pos arbitrary: e rule: match_here.induct)
  case (1 db tx pos)
  then show ?case by simp
next
  case (2 db r tx pos)
  then show ?case by (simp split: if_splits)
next
  case (3 db cs r tx pos)
  then show ?case by (simp split: if_splits)
next
  case (4 db cs r tx pos)
  from try_down_Some [OF "4.prems" [simplified]] obtain k
    where k: "pos \<le> k" "k \<le> pos + run db cs tx pos" "match_here db r tx k = Some e"
    by auto
  from k(3) have "matches db r tx k e" by (rule "4.IH")
  moreover from k(1,2) have "all_in (in_cset db cs) tx pos k"
    by (simp add: run_iff)
  ultimately show ?case using k(1) by auto
next
  case (5 db cs r tx pos)
  from "5.prems" obtain n where n: "run db cs tx pos = Suc n"
    and t: "try_down (\<lambda>k. match_here db r tx k) (Suc pos) n = Some e"
    by (auto split: nat.splits)
  from try_down_Some [OF t] obtain k
    where k: "Suc pos \<le> k" "k \<le> Suc pos + n" "match_here db r tx k = Some e"
    by auto
  from k(3) have "matches db r tx k e" by (rule "5.IH" [OF n])
  moreover from k(1,2) n have "all_in (in_cset db cs) tx pos k"
    by (simp add: run_iff [symmetric])
  ultimately show ?case using k(1) by auto
qed

lemma match_here_complete:
  "matches db items tx pos e \<Longrightarrow> match_here db items tx pos \<noteq> None"
proof (induction db items tx pos arbitrary: e rule: match_here.induct)
  case (1 db tx pos)
  then show ?case by simp
next
  case (2 db r tx pos)
  then show ?case by fastforce
next
  case (3 db cs r tx pos)
  then show ?case by fastforce
next
  case (4 db cs r tx pos)
  from "4.prems" obtain k where k: "pos \<le> k"
    "all_in (in_cset db cs) tx pos k" "matches db r tx k e"
    by auto
  from k(1,2) have "k \<le> pos + run db cs tx pos" by (simp add: run_iff)
  moreover from k(3) have "match_here db r tx k \<noteq> None" by (rule "4.IH")
  ultimately show ?case using k(1) by (auto simp: try_down_None)
next
  case (5 db cs r tx pos)
  from "5.prems" obtain k where k: "Suc pos \<le> k"
    "all_in (in_cset db cs) tx pos k" "matches db r tx k e"
    by auto
  from k(1,2) have le: "k \<le> pos + run db cs tx pos" by (simp add: run_iff)
  with k(1) obtain n where n: "run db cs tx pos = Suc n" by (cases "run db cs tx pos") auto
  from k(3) have "match_here db r tx k \<noteq> None" by (rule "5.IH" [OF n])
  with le n k(1) show ?case by (auto simp: try_down_None)
qed

lemma matches_start_le: "matches db items tx pos e \<Longrightarrow> pos \<le> e"
proof (induction items arbitrary: pos)
  case Nil
  then show ?case by simp
next
  case (Cons i r)
  show ?case
  proof (cases i)
    case Bol
    with Cons show ?thesis by simp
  next
    case (One cs)
    with Cons.prems have "matches db r tx (Suc pos) e" by simp
    from Cons.IH [OF this] show ?thesis by simp
  next
    case (Star cs)
    with Cons.prems obtain k where "pos \<le> k" "matches db r tx k e" by auto
    with Cons.IH [of k] show ?thesis by simp
  next
    case (Plus cs)
    with Cons.prems obtain k where "Suc pos \<le> k" "matches db r tx k e" by auto
    with Cons.IH [of k] show ?thesis by simp
  qed
qed

lemma all_from_Suc:
  assumes "P pos"
  shows "(\<forall>q. pos \<le> q \<and> B q \<longrightarrow> P q) = (\<forall>q. Suc pos \<le> q \<and> B q \<longrightarrow> P q)"
proof
  assume "\<forall>q. pos \<le> q \<and> B q \<longrightarrow> P q"
  then show "\<forall>q. Suc pos \<le> q \<and> B q \<longrightarrow> P q" by (simp add: Suc_leD)
next
  assume a: "\<forall>q. Suc pos \<le> q \<and> B q \<longrightarrow> P q"
  show "\<forall>q. pos \<le> q \<and> B q \<longrightarrow> P q"
  proof (intro allI impI)
    fix q assume q: "pos \<le> q \<and> B q"
    then consider "q = pos" | "Suc pos \<le> q" by arith
    then show "P q" using assms a q by cases auto
  qed
qed

lemma scan_Some_iff:
  "(scan db items tx n pos = Some (s, e)) =
     (pos \<le> s \<and> s \<le> pos + n \<and> match_here db items tx s = Some e \<and>
      (\<forall>q. pos \<le> q \<and> q < s \<longrightarrow> match_here db items tx q = None))"
proof (induction n arbitrary: pos)
  case 0
  then show ?case by (cases "match_here db items tx pos") auto
next
  case (Suc n)
  show ?case
  proof (cases "match_here db items tx pos")
    case None
    have eq: "(\<forall>q. pos \<le> q \<and> q < s \<longrightarrow> match_here db items tx q = None) =
          (\<forall>q. Suc pos \<le> q \<and> q < s \<longrightarrow> match_here db items tx q = None)"
      using None by (rule all_from_Suc)
    have ne: "match_here db items tx s = Some e \<Longrightarrow> (pos \<le> s) = (Suc pos \<le> s)"
      using None by (cases "s = pos") auto
    have "(scan db items tx (Suc n) pos = Some (s, e)) = (scan db items tx n (Suc pos) = Some (s, e))"
      using None by simp
    also have "\<dots> = (Suc pos \<le> s \<and> s \<le> Suc pos + n \<and> match_here db items tx s = Some e \<and>
      (\<forall>q. Suc pos \<le> q \<and> q < s \<longrightarrow> match_here db items tx q = None))"
      by (rule Suc.IH)
    also have "\<dots> = (pos \<le> s \<and> s \<le> pos + Suc n \<and> match_here db items tx s = Some e \<and>
      (\<forall>q. pos \<le> q \<and> q < s \<longrightarrow> match_here db items tx q = None))"
      unfolding eq using ne by auto
    finally show ?thesis .
  next
    case (Some a)
    have "pos \<le> s \<and> (\<forall>q. pos \<le> q \<and> q < s \<longrightarrow> match_here db items tx q = None) \<Longrightarrow> s = pos"
      using Some by (metis le_less option.distinct(1) order_refl)
    with Some show ?thesis by auto
  qed
qed

lemma scan_None_iff:
  "(scan db items tx n pos = None) =
     (\<forall>q. pos \<le> q \<and> q \<le> pos + n \<longrightarrow> match_here db items tx q = None)"
proof (induction n arbitrary: pos)
  case 0
  then show ?case by (auto simp: le_antisym split: option.splits)
next
  case (Suc n)
  show ?case
  proof (cases "match_here db items tx pos")
    case None
    have "(\<forall>q. pos \<le> q \<and> q \<le> pos + Suc n \<longrightarrow> match_here db items tx q = None) =
          (\<forall>q. Suc pos \<le> q \<and> q \<le> pos + Suc n \<longrightarrow> match_here db items tx q = None)"
      using None by (rule all_from_Suc)
    with None Suc.IH [of "Suc pos"] show ?thesis by simp
  next
    case (Some a)
    then show ?thesis by auto
  qed
qed

lemma re_search_Some_iff:
  "(re_search db items tx = Some (s, e)) =
     (s \<le> length tx \<and> match_here db items tx s = Some e \<and>
      (\<forall>q. q < s \<longrightarrow> match_here db items tx q = None))"
  by (simp add: re_search_def scan_Some_iff)

lemma re_search_None_iff:
  "(re_search db items tx = None) = (\<forall>q. q \<le> length tx \<longrightarrow> match_here db items tx q = None)"
  by (simp add: re_search_def scan_None_iff)

lemma at_bol_append: "pos \<le> length A \<Longrightarrow> at_bol (A @ X) pos = at_bol A pos"
  by (cases pos) (auto simp: at_bol_def nth_append)

lemma all_in_append:
  "hi \<le> length A \<Longrightarrow> all_in P (A @ X) lo hi = all_in P A lo hi"
  by (auto simp: all_in_def nth_append)

lemma matches_append:
  "e \<le> length A \<Longrightarrow> matches db items (A @ X) pos e = matches db items A pos e"
proof (induction items arbitrary: pos)
  case Nil
  then show ?case by simp
next
  case (Cons i r)
  note le = matches_start_le [of db r A _ e]
  show ?case
  proof (cases i)
    case Bol
    from le [of pos] Cons.prems have "matches db r A pos e \<Longrightarrow> pos \<le> length A" by simp
    with Bol Cons show ?thesis by (auto simp: at_bol_append)
  next
    case (One cs)
    from le [of "Suc pos"] Cons.prems have "matches db r A (Suc pos) e \<Longrightarrow> pos < length A" by simp
    with One Cons show ?thesis by (auto simp: nth_append)
  next
    case (Star cs)
    have "\<And>k. matches db r A k e \<Longrightarrow>
       all_in (in_cset db cs) (A @ X) pos k = all_in (in_cset db cs) A pos k"
      using le Cons.prems by (intro all_in_append) (meson order_trans)
    with Star Cons show ?thesis by auto
  next
    case (Plus cs)
    have "\<And>k. matches db r A k e \<Longrightarrow>
       all_in (in_cset db cs) (A @ X) pos k = all_in (in_cset db cs) A pos k"
      using le Cons.prems by (intro all_in_append) (meson order_trans)
    with Plus Cons show ?thesis by auto
  qed
qed

lemma use_items:
  "use_pattern = [Bol, Star [Space], One [Lit 117], One [Lit 115], One [Lit 101], Plus [Space], Plus [Word, Lit 92]]"
  by (simp add: use_pattern_def lits_def)

lemma in_cset_Space: "in_cset db [Space] = is_space db"
  by (rule ext) (simp add: in_cset_def)

lemma in_cset_Lit: "in_cset db [Lit a] c = (c = a)"
  by (simp add: in_cset_def)

lemma in_cset_Word_Lit: "in_cset db [Word, Lit a] = (\<lambda>c. is_word db c \<or> c = a)"
  by (rule ext) (simp add: in_cset_def)

lemma in_cset_Lit_Lit: "in_cset db [Lit a, Lit b] c = (c = a \<or> c = b)"
  by (simp add: in_cset_def)

lemma matches_use:
  "matches db use_pattern tx q e =
     (at_bol tx q \<and>
      (\<exists>k\<ge>q. all_in (is_space db) tx q k \<and>
         k < length tx \<and> tx ! k = 117 \<and>
         Suc k < length tx \<and> tx ! Suc k = 115 \<and>
         Suc (Suc k) < length tx \<and> tx ! Suc (Suc k) = 101 \<and>
         (\<exists>ka\<ge>Suc (Suc (Suc (Suc k))).
            all_in (is_space db) tx (Suc (Suc (Suc k))) ka \<and>
            Suc ka \<le> e \<and> all_in (\<lambda>c. is_word db c \<or> c = 92) tx ka e)))"
  by (simp add: use_items in_cset_Space in_cset_Lit in_cset_Word_Lit)

lemma all_in_nth: "all_in P tx lo hi \<Longrightarrow> lo \<le> i \<Longrightarrow> i < hi \<Longrightarrow> P (tx ! i)"
  by (simp add: all_in_def)

lemma all_in_sub: "all_in P tx lo hi \<Longrightarrow> lo \<le> lo' \<Longrightarrow> hi' \<le> hi \<Longrightarrow> all_in P tx lo' hi'"
  by (simp add: all_in_def)

lemma all_in_join: "all_in P tx lo mid \<Longrightarrow> all_in P tx mid hi \<Longrightarrow> all_in P tx lo hi"
  by (auto simp: all_in_def) (meson not_le_imp_less)+

lemma all_in_le: "all_in P tx lo hi \<Longrightarrow> lo \<le> length tx \<Longrightarrow> lo \<le> hi \<Longrightarrow> hi \<le> length tx"
proof (cases "hi = lo")
  case False
  assume a: "all_in P tx lo hi" and "lo \<le> hi"
  with False have "lo \<le> hi - 1 \<and> hi - 1 < hi" by simp
  with a have "hi - 1 < length tx" unfolding all_in_def by blast
  then show ?thesis by simp
qed simp

lemma matches_insert:
  "e \<le> length A \<Longrightarrow> matches db items (A @ S @ B) pos e = matches db items (A @ B) pos e"
  by (simp add: matches_append)

lemma nth_insert: "i < length A \<Longrightarrow> (A @ S @ B) ! i = (A @ B) ! i"
  by (simp add: nth_append)

lemma lits_map: "lits s = map (\<lambda>c. One [Lit c]) (py s)"
  by (simp add: lits_def py_def)

lemma matches_lit_run:
  "matches db (map (\<lambda>c. One [Lit c]) cs @ r) tx pos e =
     ((\<forall>i<length cs. pos + i < length tx \<and> tx ! (pos + i) = cs ! i) \<and>
      matches db r tx (pos + length cs) e)"
proof (induction cs arbitrary: pos)
  case Nil
  then show ?case by simp
next
  case (Cons c cs)
  have "(\<forall>i<Suc (length cs). pos + i < length tx \<and> tx ! (pos + i) = (c # cs) ! i) =
        (pos < length tx \<and> tx ! pos = c \<and>
         (\<forall>i<length cs. Suc pos + i < length tx \<and> tx ! (Suc pos + i) = cs ! i))"
    by (auto simp: less_Suc_eq_0_disj)
  with Cons [of "Suc pos"] show ?case by (auto simp: in_cset_Lit)
qed

lemma length_slice: "hi \<le> length tx \<Longrightarrow> length (slice tx lo hi) = hi - lo"
  by (simp add: slice_def)

lemma slice_append: "lo \<le> mid \<Longrightarrow> mid \<le> hi \<Longrightarrow> slice tx lo hi = slice tx lo mid @ slice tx mid hi"
proof -
  assume a: "lo \<le> mid" "mid \<le> hi"
  then have "hi - lo = (mid - lo) + (hi - mid)" by simp
  then have "take (hi - lo) (drop lo tx) = take (mid - lo) (drop lo tx) @ take (hi - mid) (drop (mid - lo) (drop lo tx))"
    by (simp only: take_add)
  with a show ?thesis by (simp add: slice_def)
qed

lemma slice_Cons: "lo < hi \<Longrightarrow> lo < length tx \<Longrightarrow> slice tx lo hi = tx ! lo # slice tx (Suc lo) hi"
proof -
  assume a: "lo < hi" "lo < length tx"
  then obtain n where n: "hi - lo = Suc n" by (cases "hi - lo") auto
  then have "hi - Suc lo = n" by simp
  with a n show ?thesis by (simp add: slice_def Cons_nth_drop_Suc [symmetric])
qed

lemma slice_Nil: "hi \<le> lo \<Longrightarrow> slice tx lo hi = []"
  by (simp add: slice_def)

lemma slice_split:
  assumes "slice tx lo hi = ws @ s'" and "lo \<le> hi" and "hi \<le> length tx"
  shows "lo + length ws \<le> hi \<and> ws = slice tx lo (lo + length ws) \<and> s' = slice tx (lo + length ws) hi"
proof -
  from assms have len: "length ws + length s' = hi - lo"
    by (metis length_append length_slice)
  then have le: "lo + length ws \<le> hi" using assms(2) by simp
  from slice_append [of lo "lo + length ws" hi tx] le
  have "slice tx lo (lo + length ws) @ slice tx (lo + length ws) hi = ws @ s'"
    using assms(1) by simp
  moreover have "length (slice tx lo (lo + length ws)) = length ws"
    using le assms(3) by (simp add: length_slice)
  ultimately show ?thesis using le by simp
qed

lemma all_in_slice:
  assumes "lo \<le> hi" and "hi \<le> length tx"
  shows "all_in P tx lo hi = (\<forall>c\<in>set (slice tx lo hi). P c)"
proof -
  have "(\<forall>c\<in>set (slice tx lo hi). P c) = (\<forall>j<hi - lo. P (tx ! (lo + j)))"
    using assms by (simp add: all_set_conv_all_nth length_slice) (simp add: slice_def)
  also have "\<dots> = all_in P tx lo hi"
    unfolding all_in_def
  proof
    assume a: "\<forall>j<hi - lo. P (tx ! (lo + j))"
    show "\<forall>i. lo \<le> i \<and> i < hi \<longrightarrow> i < length tx \<and> P (tx ! i)"
    proof (intro allI impI)
      fix i assume i: "lo \<le> i \<and> i < hi"
      then have "i - lo < hi - lo" by arith
      with a have "P (tx ! (lo + (i - lo)))" by blast
      with i assms show "i < length tx \<and> P (tx ! i)" by simp
    qed
  next
    assume a: "\<forall>i. lo \<le> i \<and> i < hi \<longrightarrow> i < length tx \<and> P (tx ! i)"
    show "\<forall>j<hi - lo. P (tx ! (lo + j))"
    proof (intro allI impI)
      fix j assume "j < hi - lo"
      then have "lo \<le> lo + j \<and> lo + j < hi" by arith
      with a show "P (tx ! (lo + j))" by blast
    qed
  qed
  finally show ?thesis by simp
qed

lemma matches_accepts:
  "Bol \<notin> set items \<Longrightarrow> pos \<le> length tx \<Longrightarrow>
   matches db items tx pos e =
     (pos \<le> e \<and> e \<le> length tx \<and> accepts db items (slice tx pos e))"
proof (induction items arbitrary: pos)
  case Nil
  then show ?case by (auto simp: slice_def)
next
  case (Cons i r)
  from Cons.prems have nb: "Bol \<notin> set r" by simp
  show ?case
  proof (cases i)
    case Bol
    with Cons.prems show ?thesis by simp
  next
    case (One cs)
    show ?thesis
    proof
      assume m: "matches db (i # r) tx pos e"
      with One have p: "pos < length tx" "in_cset db cs (tx ! pos)" "matches db r tx (Suc pos) e"
        by simp_all
      from p(1) have "Suc pos \<le> length tx" by simp
      from Cons.IH [OF nb this] p(3)
      have r: "Suc pos \<le> e" "e \<le> length tx" "accepts db r (slice tx (Suc pos) e)" by simp_all
      from r(1) p(1) have "slice tx pos e = tx ! pos # slice tx (Suc pos) e"
        by (intro slice_Cons) simp_all
      with p r One show "pos \<le> e \<and> e \<le> length tx \<and> accepts db (i # r) (slice tx pos e)"
        by simp
    next
      assume a: "pos \<le> e \<and> e \<le> length tx \<and> accepts db (i # r) (slice tx pos e)"
      with One obtain c s' where s: "slice tx pos e = c # s'" "in_cset db cs c" "accepts db r s'"
        by auto
      from s(1) have lt: "pos < e" by (cases "pos < e") (simp_all add: slice_Nil)
      with a have pl: "pos < length tx" by simp
      from slice_Cons [OF lt pl] s(1) have c: "c = tx ! pos" "s' = slice tx (Suc pos) e" by simp_all
      from pl have "Suc pos \<le> length tx" by simp
      from Cons.IH [OF nb this] lt a s(3) c have "matches db r tx (Suc pos) e" by simp
      with One pl s(2) c show "matches db (i # r) tx pos e" by simp
    qed
  next
    case (Star cs)
    show ?thesis
    proof
      assume m: "matches db (i # r) tx pos e"
      with Star obtain k where k: "pos \<le> k" "all_in (in_cset db cs) tx pos k" "matches db r tx k e"
        by auto
      from all_in_le [OF k(2) Cons.prems(2) k(1)] have kl: "k \<le> length tx" .
      from Cons.IH [OF nb kl] k(3)
      have r: "k \<le> e" "e \<le> length tx" "accepts db r (slice tx k e)" by simp_all
      from k(1) r(1) have "slice tx pos e = slice tx pos k @ slice tx k e" by (rule slice_append)
      moreover from k(2) have "\<forall>c\<in>set (slice tx pos k). in_cset db cs c"
        by (simp add: all_in_slice [OF k(1) kl])
      ultimately have "accepts db (i # r) (slice tx pos e)" using r(3) Star by auto
      with k(1) r show "pos \<le> e \<and> e \<le> length tx \<and> accepts db (i # r) (slice tx pos e)" by simp
    next
      assume a: "pos \<le> e \<and> e \<le> length tx \<and> accepts db (i # r) (slice tx pos e)"
      with Star obtain ws s' where s: "slice tx pos e = ws @ s'" "\<forall>c\<in>set ws. in_cset db cs c"
        "accepts db r s'" by auto
      let ?k = "pos + length ws"
      from slice_split [OF s(1)] a have sp: "?k \<le> e" "ws = slice tx pos ?k" "s' = slice tx ?k e"
        by simp_all
      from sp(1) a have kl: "?k \<le> length tx" by simp
      from s(2) sp(2) have "all_in (in_cset db cs) tx pos ?k"
        by (simp add: all_in_slice [OF _ kl])
      moreover from Cons.IH [OF nb kl] sp(1,3) a s(3) have "matches db r tx ?k e" by simp
      ultimately show "matches db (i # r) tx pos e" using Star
        by (simp, intro exI [of _ ?k]) simp
    qed
  next
    case (Plus cs)
    show ?thesis
    proof
      assume m: "matches db (i # r) tx pos e"
      with Plus obtain k where k: "Suc pos \<le> k" "all_in (in_cset db cs) tx pos k" "matches db r tx k e"
        by auto
      from k(1) have pk: "pos \<le> k" by simp
      from all_in_le [OF k(2) Cons.prems(2) pk] have kl: "k \<le> length tx" .
      from Cons.IH [OF nb kl] k(3)
      have r: "k \<le> e" "e \<le> length tx" "accepts db r (slice tx k e)" by simp_all
      from pk r(1) have "slice tx pos e = slice tx pos k @ slice tx k e" by (rule slice_append)
      moreover from k(2) have "\<forall>c\<in>set (slice tx pos k). in_cset db cs c"
        by (simp add: all_in_slice [OF pk kl])
      moreover from k(1) kl have "slice tx pos k \<noteq> []"
        by (metis length_slice list.size(3) Suc_le_lessD zero_less_diff less_numeral_extra(3))
      ultimately have "accepts db (i # r) (slice tx pos e)" using r(3) Plus by auto
      with pk r show "pos \<le> e \<and> e \<le> length tx \<and> accepts db (i # r) (slice tx pos e)" by simp
    next
      assume a: "pos \<le> e \<and> e \<le> length tx \<and> accepts db (i # r) (slice tx pos e)"
      with Plus obtain ws s' where s: "ws \<noteq> []" "slice tx pos e = ws @ s'"
        "\<forall>c\<in>set ws. in_cset db cs c" "accepts db r s'" by auto
      let ?k = "pos + length ws"
      from slice_split [OF s(2)] a have sp: "?k \<le> e" "ws = slice tx pos ?k" "s' = slice tx ?k e"
        by simp_all
      from sp(1) a have kl: "?k \<le> length tx" by simp
      from s(3) sp(2) have "all_in (in_cset db cs) tx pos ?k"
        by (simp add: all_in_slice [OF _ kl])
      moreover from Cons.IH [OF nb kl] sp(1,3) a s(4) have "matches db r tx ?k e" by simp
      moreover from s(1) have "Suc pos \<le> ?k" by (cases ws) simp_all
      ultimately show "matches db (i # r) tx pos e" using Plus
        by (simp, intro exI [of _ ?k]) simp
    qed
  qed
qed

lemma abspath_items:
  "abspath_pattern =
     [One [Lit 100], One [Lit 101], One [Lit 102], One [Lit 105], One [Lit 110], One [Lit 101],
      One [Lit 100], One [Lit 40], Star [Space], One [Lit 39, Lit 34],
      One [Lit 65], One [Lit 66], One [Lit 83], One [Lit 80], One [Lit 65], One [Lit 84], One [Lit 72],
      One [Lit 39, Lit 34], Star [Space], One [Lit 41]]"
  by (simp add: abspath_pattern_def lits_def)

lemma accepts_lit_run:
  "accepts db (map (\<lambda>c. One [Lit c]) cs @ r) s = (\<exists>s'. s = cs @ s' \<and> accepts db r s')"
  by (induction cs arbitrary: s) (auto simp: in_cset_Lit)

lemma abspath_runs:
  "abspath_pattern =
     map (\<lambda>c. One [Lit c]) (py ''defined('') @ Star [Space] # One [Lit 39, Lit 34] #
     map (\<lambda>c. One [Lit c]) (py ''ABSPATH'') @ One [Lit 39, Lit 34] # Star [Space] #
     map (\<lambda>c. One [Lit c]) (py '')'') @ []"
  by (simp add: abspath_pattern_def lits_map)

lemma accepts_abspath: "accepts db abspath_pattern s = guard_text db s"
proof
  assume "accepts db abspath_pattern s"
  then show "guard_text db s"
    unfolding abspath_runs guard_text_def
    by (simp only: accepts_lit_run accepts.simps in_cset_Space in_cset_Lit_Lit) auto
next
  assume "guard_text db s"
  then obtain ws1 q1 q2 ws2 where
    s: "s = py ''defined('' @ ws1 @ [q1] @ py ''ABSPATH'' @ [q2] @ ws2 @ py '')''"
    and w1: "\<forall>c\<in>set ws1. is_space db c" and q1: "q1 = 39 \<or> q1 = 34"
    and q2: "q2 = 39 \<or> q2 = 34" and w2: "\<forall>c\<in>set ws2. is_space db c"
    unfolding guard_text_def by blast
  have 7: "accepts db (map (\<lambda>c. One [Lit c]) (py '')'') @ []) (py '')'')"
    by (simp only: accepts_lit_run) simp
  have 6: "accepts db (Star [Space] # map (\<lambda>c. One [Lit c]) (py '')'') @ []) (ws2 @ py '')'')"
    using 7 w2 by (simp only: accepts.simps in_cset_Space) blast
  have 5: "accepts db (One [Lit 39, Lit 34] # Star [Space] # map (\<lambda>c. One [Lit c]) (py '')'') @ [])
      ([q2] @ ws2 @ py '')'')"
    using 6 q2 by (simp add: in_cset_Lit_Lit)
  have 4: "accepts db (map (\<lambda>c. One [Lit c]) (py ''ABSPATH'') @ One [Lit 39, Lit 34] # Star [Space] #
      map (\<lambda>c. One [Lit c]) (py '')'') @ []) (py ''ABSPATH'' @ [q2] @ ws2 @ py '')'')"
    using 5 by (simp only: accepts_lit_run) blast
  have 3: "accepts db (One [Lit 39, Lit 34] # map (\<lambda>c. One [Lit c]) (py ''ABSPATH'') @
      One [Lit 39, Lit 34] # Star [Space] # map (\<lambda>c. One [Lit c]) (py '')'') @ [])
      ([q1] @ py ''ABSPATH'' @ [q2] @ ws2 @ py '')'')"
    using 4 q1 by (simp add: in_cset_Lit_Lit)
  have 2: "accepts db (Star [Space] # One [Lit 39, Lit 34] # map (\<lambda>c. One [Lit c]) (py ''ABSPATH'') @
      One [Lit 39, Lit 34] # Star [Space] # map (\<lambda>c. One [Lit c]) (py '')'') @ [])
      (ws1 @ [q1] @ py ''ABSPATH'' @ [q2] @ ws2 @ py '')'')"
    using 3 w1 by (simp only: accepts.simps in_cset_Space) blast
  show "accepts db abspath_pattern s"
    unfolding abspath_runs s using 2 by (simp only: accepts_lit_run) blast
qed

lemma defined_codes: "py ''defined('' = [100, 101, 102, 105, 110, 101, 100, 40]"
  by (simp add: py_def)

lemma abspath_codes: "py ''ABSPATH'' = [65, 66, 83, 80, 65, 84, 72]"
  by (simp add: py_def)

lemma paren_codes: "py '')'' = [41]"
  by (simp add: py_def)

lemma defined_d:
  assumes "i < 8" and "0 < i" and "py ''defined('' ! i = 100"
  shows "i = 6"
proof -
  from assms(1,2) consider "i = 1" | "i = 2" | "i = 3" | "i = 4" | "i = 5" | "i = 6" | "i = 7"
    by arith
  then show ?thesis using assms(3) by cases (simp_all add: defined_codes)
qed

lemma abspath_no_d:
  assumes "i < 7"
  shows "py ''ABSPATH'' ! i \<noteq> 100"
proof -
  from assms consider "i = 0" | "i = 1" | "i = 2" | "i = 3" | "i = 4" | "i = 5" | "i = 6"
    by arith
  then show ?thesis by cases (simp_all add: abspath_codes)
qed

lemma matches_guard:
  "matches db abspath_pattern tx q e =
     ((\<forall>i<8. q + i < length tx \<and> tx ! (q + i) = py ''defined('' ! i) \<and>
      (\<exists>k\<ge>q + 8. all_in (is_space db) tx (q + 8) k \<and>
         k < length tx \<and> (tx ! k = 39 \<or> tx ! k = 34) \<and>
         (\<forall>i<7. Suc k + i < length tx \<and> tx ! (Suc k + i) = py ''ABSPATH'' ! i) \<and>
         Suc k + 7 < length tx \<and> (tx ! (Suc k + 7) = 39 \<or> tx ! (Suc k + 7) = 34) \<and>
         (\<exists>ka\<ge>Suc (Suc k + 7). all_in (is_space db) tx (Suc (Suc k + 7)) ka \<and>
            ka < length tx \<and> tx ! ka = 41 \<and> e = Suc ka)))"
proof -
  have l8: "length (py ''defined('') = 8" and l7: "length (py ''ABSPATH'') = 7"
    and l1: "length (py '')'') = 1"
    by (simp_all add: py_def)
  show ?thesis
    unfolding abspath_runs
    by (simp only: matches_lit_run matches.simps in_cset_Space in_cset_Lit_Lit l8 l7 l1)
       (auto simp: paren_codes)
qed

lemma not_space_ascii:
  "\<not> is_space db 117" "\<not> is_space db 100"
  by (simp_all add: is_space_def)

lemma matches_useI:
  assumes "at_bol tx q" and "q \<le> k" and "all_in (is_space db) tx q k"
    and "k < length tx" and "tx ! k = 117"
    and "Suc k < length tx" and "tx ! Suc k = 115"
    and "Suc (Suc k) < length tx" and "tx ! Suc (Suc k) = 101"
    and "Suc (Suc (Suc (Suc k))) \<le> ka"
    and "all_in (is_space db) tx (Suc (Suc (Suc k))) ka"
    and "Suc ka \<le> e" and "all_in (\<lambda>c. is_word db c \<or> c = 92) tx ka e"
  shows "matches db use_pattern tx q e"
  unfolding matches_use
  apply (rule conjI)
   apply (rule assms(1))
  apply (rule exI [of _ k])
  apply (simp add: assms)
  apply (rule exI [of _ ka])
  apply (simp add: assms)
  done

lemma matches_useE:
  assumes "matches db use_pattern tx q e"
  obtains k ka where "at_bol tx q" and "q \<le> k" and "all_in (is_space db) tx q k"
    and "k < length tx" and "tx ! k = 117"
    and "Suc k < length tx" and "tx ! Suc k = 115"
    and "Suc (Suc k) < length tx" and "tx ! Suc (Suc k) = 101"
    and "Suc (Suc (Suc (Suc k))) \<le> ka"
    and "all_in (is_space db) tx (Suc (Suc (Suc k))) ka"
    and "Suc ka \<le> e" and "all_in (\<lambda>c. is_word db c \<or> c = 92) tx ka e"
  using assms unfolding matches_use by (elim conjE exE) (rule that)

lemma no_earlier_use:
  assumes mu: "matches db use_pattern (A @ B) u ue" and ue: "ue \<le> length A"
    and qu: "q < u" and mq: "matches db use_pattern (A @ S @ B) q e'"
  shows "\<exists>e. matches db use_pattern (A @ B) q e"
proof (cases "e' \<le> length A")
  case True
  with mq have "matches db use_pattern (A @ B) q e'" by (simp add: matches_insert)
  then show ?thesis ..
next
  case False
  let ?T = "A @ B" and ?T' = "A @ S @ B"
  let ?W = "\<lambda>c. is_word db c \<or> c = 92"
  from mu obtain a2 b2 where
    bu: "at_bol ?T u" and ua: "u \<le> a2"
    and w1u: "all_in (is_space db) ?T u a2"
    and l1: "a2 < length ?T" and cu: "?T ! a2 = 117"
    and l2: "Suc a2 < length ?T" and cu2: "?T ! Suc a2 = 115"
    and l3: "Suc (Suc a2) < length ?T" and cu3: "?T ! Suc (Suc a2) = 101"
    and ab2: "Suc (Suc (Suc (Suc a2))) \<le> b2"
    and w2u: "all_in (is_space db) ?T (Suc (Suc (Suc a2))) b2"
    and be2: "Suc b2 \<le> ue"
    and wdu: "all_in ?W ?T b2 ue"
    by (rule matches_useE)
  from mq obtain a b where
    bq: "at_bol ?T' q" and qa: "q \<le> a"
    and w1: "all_in (is_space db) ?T' q a"
    and c1: "?T' ! a = 117" and c2: "?T' ! Suc a = 115" and c3: "?T' ! Suc (Suc a) = 101"
    and ab: "Suc (Suc (Suc (Suc a))) \<le> b"
    and w2: "all_in (is_space db) ?T' (Suc (Suc (Suc a))) b"
    and be: "Suc b \<le> e'"
    and wd: "all_in ?W ?T' b e'"
    by (rule matches_useE)
  from ua ab2 be2 ue have a2n: "Suc (Suc (Suc a2)) < length A" by simp
  from qu ua a2n have un: "u < length A" and qn: "q < length A" by simp_all
  from bu qu have lf: "?T ! (u - 1) = 10" by (auto simp: at_bol_def)
  from un have "u - 1 < length A" by simp
  then have "?T' ! (u - 1) = ?T ! (u - 1)" by (rule nth_insert)
  with lf have lf': "?T' ! (u - 1) = 10" by simp
  from bq qn have bq': "at_bol ?T q" by (simp add: at_bol_append)
  consider (before) "u \<le> a" | (inside) "u - 1 = a \<or> u - 1 = Suc a \<or> u - 1 = Suc (Suc a)"
    | (gap) "Suc (Suc (Suc a)) \<le> u - 1" "u - 1 < b" | (word) "b \<le> u - 1"
    using qu by arith
  then show ?thesis
  proof cases
    case before
    from w1 before have "all_in (is_space db) ?T' q u" by (rule all_in_sub [OF _ le_refl])
    with un have "all_in (is_space db) ?T q u" by (simp add: all_in_append)
    from this w1u have w: "all_in (is_space db) ?T q a2" by (rule all_in_join)
    from qu ua have "q \<le> a2" by simp
    from bq' this w l1 cu l2 cu2 l3 cu3 ab2 w2u be2 wdu
    have "matches db use_pattern ?T q ue" by (rule matches_useI)
    then show ?thesis ..
  next
    case inside
    with lf' c1 c2 c3 show ?thesis by auto
  next
    case gap
    show ?thesis
    proof (cases "a2 < b")
      case True
      from gap(1) ua qu have "Suc (Suc (Suc a)) \<le> a2" by arith
      from all_in_nth [OF w2 this True] have "is_space db (?T' ! a2)" .
      moreover from a2n have "a2 < length A" by simp
      then have "?T' ! a2 = ?T ! a2" by (rule nth_insert)
      ultimately show ?thesis using cu by (simp add: not_space_ascii)
    next
      case False
      then have ba: "b \<le> a2" by simp
      from a2n have e2: "Suc a2 \<le> length A" by simp
      from ba a2n have bn: "b \<le> length A" by simp
      from ab bn have an: "Suc (Suc a) < length A" "Suc a < length A" "a < length A" by simp_all
      from w1 an have 1: "all_in (is_space db) ?T q a" by (simp add: all_in_append)
      from w2 bn have 2: "all_in (is_space db) ?T (Suc (Suc (Suc a))) b"
        by (simp add: all_in_append)
      from e2 \<open>\<not> e' \<le> length A\<close> have "Suc a2 \<le> e'" by simp
      from all_in_sub [OF wd le_refl this] e2 have 3: "all_in ?W ?T b (Suc a2)"
        by (simp add: all_in_append)
      from an have "?T' ! a = ?T ! a" "?T' ! Suc a = ?T ! Suc a"
        "?T' ! Suc (Suc a) = ?T ! Suc (Suc a)"
        by (simp_all only: nth_insert)
      with c1 c2 c3 have 4: "?T ! a = 117" "?T ! Suc a = 115" "?T ! Suc (Suc a) = 101"
        by simp_all
      from an have 5: "a < length ?T" "Suc a < length ?T" "Suc (Suc a) < length ?T" by simp_all
      from ba have 6: "Suc b \<le> Suc a2" by simp
      from bq' qa 1 5(1) 4(1) 5(2) 4(2) 5(3) 4(3) ab 2 6 3
      have "matches db use_pattern ?T q (Suc a2)" by (rule matches_useI)
      then show ?thesis ..
    qed
  next
    case word
    from un qu \<open>\<not> e' \<le> length A\<close> have "u - 1 < e'" by simp
    from all_in_nth [OF wd word this] lf' show ?thesis by (simp add: is_word_def)
  qed
qed

lemma no_earlier_guard:
  assumes mg: "matches db abspath_pattern (A @ B) g ge" and ge: "ge \<le> length A"
    and qg: "q < g" and mq: "matches db abspath_pattern (A @ S @ B) q e'"
  shows "\<exists>e. matches db abspath_pattern (A @ B) q e"
proof (cases "e' \<le> length A")
  case True
  with mq have "matches db abspath_pattern (A @ B) q e'" by (simp add: matches_insert)
  then show ?thesis ..
next
  case False
  let ?T = "A @ B" and ?T' = "A @ S @ B"
  let ?D = "py ''defined(''" and ?P = "py ''ABSPATH''"
  from mg obtain k2 ka2 where
    dg: "\<forall>i<8. g + i < length ?T \<and> ?T ! (g + i) = ?D ! i"
    and g1: "g + 8 \<le> k2" and g2: "Suc (Suc k2 + 7) \<le> ka2" and g3: "ge = Suc ka2"
    unfolding matches_guard by blast
  from g1 g2 g3 ge have gn: "Suc g < length A" by simp
  from dg [rule_format, of 0] dg [rule_format, of 1]
  have tg: "?T ! g = 100" "?T ! Suc g = 101" by (simp_all add: defined_codes)
  from gn have "g < length A" by simp
  then have "?T' ! g = ?T ! g" by (rule nth_insert)
  moreover from gn have "?T' ! Suc g = ?T ! Suc g" by (rule nth_insert)
  ultimately have tg': "?T' ! g = 100" "?T' ! Suc g = 101" using tg by simp_all
  from mq obtain k ka where
    dq: "\<forall>i<8. q + i < length ?T' \<and> ?T' ! (q + i) = ?D ! i"
    and k: "q + 8 \<le> k" and w1: "all_in (is_space db) ?T' (q + 8) k"
    and q1: "?T' ! k = 39 \<or> ?T' ! k = 34"
    and pq: "\<forall>i<7. Suc k + i < length ?T' \<and> ?T' ! (Suc k + i) = ?P ! i"
    and q2: "?T' ! (Suc k + 7) = 39 \<or> ?T' ! (Suc k + 7) = 34"
    and ka: "Suc (Suc k + 7) \<le> ka" and w2: "all_in (is_space db) ?T' (Suc (Suc k + 7)) ka"
    and cl: "?T' ! ka = 41" and e': "e' = Suc ka"
    unfolding matches_guard by blast
  from gn False e' have gka: "g \<le> ka" by simp
  consider (lit) "g < q + 8" | (ws1) "q + 8 \<le> g" "g < k" | (quote1) "g = k"
    | (name) "Suc k \<le> g" "g < Suc k + 7" | (quote2) "g = Suc k + 7"
    | (ws2) "Suc (Suc k + 7) \<le> g" "g < ka" | (close) "g = ka"
    using gka by arith
  then have False
  proof cases
    case lit
    with qg have i: "g - q < 8" "0 < g - q" "q + (g - q) = g" by simp_all
    from dq i(1) have "?T' ! (q + (g - q)) = ?D ! (g - q)" by blast
    with i(3) tg'(1) have "?D ! (g - q) = 100" by simp
    from defined_d [OF i(1,2) this] have six: "g - q = 6" .
    then have eq: "q + 7 = Suc g" using qg by simp
    from dq [rule_format, of 7] have "?T' ! (q + 7) = 40" by (simp add: defined_codes)
    then have "?T' ! Suc g = 40" unfolding eq .
    with tg'(2) show False by simp
  next
    case ws1
    from all_in_nth [OF w1 ws1] tg'(1) show False by (simp add: not_space_ascii)
  next
    case quote1
    with q1 tg'(1) show False by simp
  next
    case name
    then have i: "g - Suc k < 7" "Suc k + (g - Suc k) = g" by simp_all
    from pq i(1) have "?T' ! (Suc k + (g - Suc k)) = ?P ! (g - Suc k)" by blast
    with i(2) tg'(1) have "?P ! (g - Suc k) = 100" by simp
    with abspath_no_d [OF i(1)] show False by simp
  next
    case quote2
    with q2 tg'(1) show False by simp
  next
    case ws2
    from all_in_nth [OF w2 ws2] tg'(1) show False by (simp add: not_space_ascii)
  next
    case close
    with cl tg'(1) show False by simp
  qed
  then show ?thesis ..
qed

lemma match_here_None_iff:
  "(match_here db items tx q = None) = (\<forall>e. \<not> matches db items tx q e)"
  using match_here_sound match_here_complete by (cases "match_here db items tx q") blast+

lemma search_insert:
  assumes s: "re_search db items (A @ B) = Some (u, ue)" and ue: "ue \<le> length A"
    and early: "\<And>q e'. q < u \<Longrightarrow> matches db items (A @ S @ B) q e' \<Longrightarrow>
                 \<exists>e. matches db items (A @ B) q e"
  shows "\<exists>ue'. re_search db items (A @ S @ B) = Some (u, ue')"
proof -
  from s have ul: "u \<le> length (A @ B)" and mu: "match_here db items (A @ B) u = Some ue"
    and first: "\<forall>q<u. match_here db items (A @ B) q = None"
    by (simp_all add: re_search_Some_iff)
  from mu have m: "matches db items (A @ B) u ue" by (rule match_here_sound)
  with ue have "matches db items (A @ S @ B) u ue" by (simp add: matches_insert)
  then obtain ue' where 1: "match_here db items (A @ S @ B) u = Some ue'"
    using match_here_complete by fastforce
  have 2: "\<forall>q<u. match_here db items (A @ S @ B) q = None"
  proof (intro allI impI)
    fix q assume q: "q < u"
    with first have "\<forall>e. \<not> matches db items (A @ B) q e" by (simp add: match_here_None_iff)
    with early [OF q] have "\<forall>e'. \<not> matches db items (A @ S @ B) q e'" by blast
    then show "match_here db items (A @ S @ B) q = None" by (simp add: match_here_None_iff)
  qed
  from matches_start_le [OF m] ue have 3: "u \<le> length (A @ S @ B)" by simp
  from 1 2 3 have "re_search db items (A @ S @ B) = Some (u, ue')"
    by (simp add: re_search_Some_iff)
  then show ?thesis ..
qed

lemma guard_at_matches:
  assumes "q \<le> length tx"
  shows "matches db abspath_pattern tx q e = guard_at db tx q e"
proof -
  have "Bol \<notin> set abspath_pattern" by (simp add: abspath_items)
  from matches_accepts [OF this assms, of db e] show ?thesis
    by (simp only: accepts_abspath guard_at_def slice_def)
qed

lemma guard_at_start: "guard_at db tx q e \<Longrightarrow> q \<le> length tx"
  by (simp add: guard_at_def)

section \<open>The claims\<close>

text \<open>
  C1. For a text with at least one match of the use pattern and a match of the guard
  pattern, \<open>check_file\<close> returns the path exactly when the offset of the guard match
  is strictly below the offset of the first use match. In every other case, equal
  offsets included, it returns \<open>None\<close>.
\<close>

theorem C1_strict_comparison:
  assumes "map fst (re_finditer db use_pattern content) = first_use_pos # more_uses"
    and "re_search db abspath_pattern content = Some (abspath_pos, abspath_end)"
    and "files w filepath = Inr content"
  shows "fst (check_file db filepath w) =
           (if abspath_pos < first_use_pos then Some filepath else None)"
  using assms by (simp add: check_file_def detection_rule_def)

theorem C1_strict_comparison_witness:
  "map fst (re_finditer ascii_db use_pattern scenario_A) = [43] \<and>
   re_search ascii_db abspath_pattern scenario_A = Some (11, 29) \<and>
   files (one_file (py ''src/a.php'') scenario_A) (py ''src/a.php'') = Inr scenario_A \<and>
   fst (check_file ascii_db (py ''src/a.php'') (one_file (py ''src/a.php'') scenario_A)) =
     Some (py ''src/a.php'')"
proof -
  have u: "map fst (re_finditer ascii_db use_pattern scenario_A) = [43]" by code_simp
  have g: "re_search ascii_db abspath_pattern scenario_A = Some (11, 29)" by code_simp
  have f: "files (one_file (py ''src/a.php'') scenario_A) (py ''src/a.php'') = Inr scenario_A"
    by (simp add: one_file_def)
  from C1_strict_comparison [OF u g f] u g f show ?thesis by simp
qed

text \<open>
  C2. Let the first use match and the first guard match of a text both end within
  its prefix \<open>A\<close>. Inserting any text \<open>S\<close> after \<open>A\<close> (further occurrences of
  either pattern among them), or appending it, leaves the offset of the first use
  match and the offset of the first guard match where they were, and the result of
  the rule unchanged; that result is determined by these two offsets alone.
\<close>

theorem C2_first_occurrences_only:
  assumes "re_finditer db use_pattern (A @ B) = (u, ue) # later" and "ue \<le> length A"
    and "re_search db abspath_pattern (A @ B) = Some (g, ge)" and "ge \<le> length A"
  shows "(\<exists>ue' later'. re_finditer db use_pattern (A @ S @ B) = (u, ue') # later') \<and>
         (\<exists>ge'. re_search db abspath_pattern (A @ S @ B) = Some (g, ge')) \<and>
         detection_rule db (A @ S @ B) filepath = detection_rule db (A @ B) filepath \<and>
         detection_rule db (A @ B) filepath = (if g < u then Some filepath else None)"
proof -
  from assms(1) have su: "re_search db use_pattern (A @ B) = Some (u, ue)"
    by (rule re_finditer_Cons)
  then have mu: "matches db use_pattern (A @ B) u ue"
    by (simp add: re_search_Some_iff match_here_sound)
  from assms(3) have mg: "matches db abspath_pattern (A @ B) g ge"
    by (simp add: re_search_Some_iff match_here_sound)
  from search_insert [OF su assms(2)] no_earlier_use [OF mu assms(2)]
  obtain ue' where u': "re_search db use_pattern (A @ S @ B) = Some (u, ue')" by blast
  from search_insert [OF assms(3,4)] no_earlier_guard [OF mg assms(4)]
  obtain ge' where g': "re_search db abspath_pattern (A @ S @ B) = Some (g, ge')" by blast
  from u' have 1: "\<exists>ue' later'. re_finditer db use_pattern (A @ S @ B) = (u, ue') # later'"
    by (simp add: re_finditer_unfold)
  from su assms(3) have 3: "detection_rule db (A @ B) filepath = (if g < u then Some filepath else None)"
    by (simp add: detection_rule_eq)
  from u' g' have "detection_rule db (A @ S @ B) filepath = (if g < u then Some filepath else None)"
    by (simp add: detection_rule_eq)
  with 1 g' 3 show ?thesis by simp
qed

theorem C2_first_occurrences_only_witness:
  "re_finditer ascii_db use_pattern (scenario_A @ py ''?>'') = (43, 54) # [] \<and>
   54 \<le> length scenario_A \<and>
   re_search ascii_db abspath_pattern (scenario_A @ py ''?>'') = Some (11, 29) \<and>
   29 \<le> length scenario_A \<and>
   detection_rule ascii_db (scenario_A @ later_occurrences @ py ''?>'') (py ''src/a.php'') =
     detection_rule ascii_db (scenario_A @ py ''?>'') (py ''src/a.php'') \<and>
   detection_rule ascii_db (scenario_A @ py ''?>'') (py ''src/a.php'') = Some (py ''src/a.php'')"
proof -
  have 1: "re_finditer ascii_db use_pattern (scenario_A @ py ''?>'') = (43, 54) # []" by code_simp
  have 2: "54 \<le> length scenario_A" by code_simp
  have 3: "re_search ascii_db abspath_pattern (scenario_A @ py ''?>'') = Some (11, 29)" by code_simp
  have 4: "29 \<le> length scenario_A" by code_simp
  from C2_first_occurrences_only [OF 1 2 3 4, of later_occurrences "py ''src/a.php''"] 1 2 3 4
  show ?thesis by simp
qed

text \<open>
  C3. When the use pattern has no match in the text read, or the guard pattern has
  none, \<open>check_file\<close> returns \<open>None\<close> and leaves the world as it is, the loop
  body prints nothing, and no run of the walker prints the path of that file.
\<close>

theorem C3_inapplicable:
  assumes "map fst (re_finditer db use_pattern content) = [] \<or>
           re_search db abspath_pattern content = None"
    and "files w (os_path_join dirpath filename) = Inr content"
  shows "check_file db (os_path_join dirpath filename) w = (None, w) \<and>
         walk_file db dirpath filename w = w \<and>
         os_path_join dirpath filename \<notin> set (printed db walk w)"
proof -
  let ?p = "os_path_join dirpath filename"
  from assms have c: "check_file db ?p w = (None, w)"
    by (auto simp: check_file_def detection_rule_def)
  then have nf: "\<And>d f. os_path_join d f = ?p \<Longrightarrow> \<not> flagged db w d f"
    by (simp add: flagged_def)
  then have "walk_file db dirpath filename w = w" by (simp add: walk_file_eq)
  moreover from nf have "?p \<notin> set (printed db walk w)"
    by (auto simp: set_printed)
  ultimately show ?thesis using c by simp
qed

theorem C3_inapplicable_witness:
  "re_search ascii_db abspath_pattern (py ''<?php use Foo;'') = None \<and>
   files (one_file (py ''src/a.php'') (py ''<?php use Foo;'')) (os_path_join (py ''src'') (py ''a.php''))
     = Inr (py ''<?php use Foo;'') \<and>
   walk_file ascii_db (py ''src'') (py ''a.php'') (one_file (py ''src/a.php'') (py ''<?php use Foo;''))
     = one_file (py ''src/a.php'') (py ''<?php use Foo;'')"
proof -
  have g: "re_search ascii_db abspath_pattern (py ''<?php use Foo;'') = None" by code_simp
  have f: "files (one_file (py ''src/a.php'') (py ''<?php use Foo;'')) (os_path_join (py ''src'') (py ''a.php''))
     = Inr (py ''<?php use Foo;'')" by code_simp
  from C3_inapplicable [OF disjI2 [OF g] f] g f show ?thesis by simp
qed

text \<open>
  C4 (as amended). The guard offset is the offset of the leftmost word of the form
  \<open>defined(\<close>, optional white space, a quote, \<open>ABSPATH\<close>, a quote (either
  one, not necessarily the opening one), optional white space, \<open>)\<close>; there is no
  guard offset exactly when no such word stands in the text.
\<close>

theorem C4_guard_offset:
  "(re_search db abspath_pattern tx = Some (s, e) \<longrightarrow> guard_at db tx s e) \<and>
   ((\<exists>e. re_search db abspath_pattern tx = Some (s, e)) =
      ((\<exists>e. guard_at db tx s e) \<and> (\<forall>s' e'. s' < s \<longrightarrow> \<not> guard_at db tx s' e'))) \<and>
   ((re_search db abspath_pattern tx = None) = (\<forall>s e. \<not> guard_at db tx s e))"
proof -
  let ?M = "\<lambda>q. match_here db abspath_pattern tx q"
  have none: "(?M q = None) = (\<forall>e. \<not> guard_at db tx q e)" if "q \<le> length tx" for q
    using that by (simp add: match_here_None_iff guard_at_matches)
  have some: "guard_at db tx q e" if "?M q = Some e" "q \<le> length tx" for q e
    using that match_here_sound [of db abspath_pattern tx q e] by (simp add: guard_at_matches)
  have 1: "re_search db abspath_pattern tx = Some (s, e) \<longrightarrow> guard_at db tx s e"
    by (simp add: re_search_Some_iff some)
  have 2: "(\<exists>e. re_search db abspath_pattern tx = Some (s, e)) =
      ((\<exists>e. guard_at db tx s e) \<and> (\<forall>s' e'. s' < s \<longrightarrow> \<not> guard_at db tx s' e'))"
  proof
    assume "\<exists>e. re_search db abspath_pattern tx = Some (s, e)"
    then obtain e where r: "s \<le> length tx" "?M s = Some e" "\<forall>q<s. ?M q = None"
      by (auto simp: re_search_Some_iff)
    from some [OF r(2,1)] have "\<exists>e. guard_at db tx s e" ..
    moreover have "\<forall>s' e'. s' < s \<longrightarrow> \<not> guard_at db tx s' e'"
    proof (intro allI impI)
      fix s' e' assume lt: "s' < s"
      with r(1) have "s' \<le> length tx" by simp
      from none [OF this] r(3) lt show "\<not> guard_at db tx s' e'" by simp
    qed
    ultimately show "(\<exists>e. guard_at db tx s e) \<and> (\<forall>s' e'. s' < s \<longrightarrow> \<not> guard_at db tx s' e')" ..
  next
    assume a: "(\<exists>e. guard_at db tx s e) \<and> (\<forall>s' e'. s' < s \<longrightarrow> \<not> guard_at db tx s' e')"
    then obtain e where g: "guard_at db tx s e" by blast
    then have sl: "s \<le> length tx" by (rule guard_at_start)
    from none [OF sl] g obtain e2 where m: "?M s = Some e2" by (cases "?M s") auto
    have "\<forall>q<s. ?M q = None"
    proof (intro allI impI)
      fix q assume lt: "q < s"
      with sl have "q \<le> length tx" by simp
      from none [OF this] a lt show "?M q = None" by simp
    qed
    with sl m have "re_search db abspath_pattern tx = Some (s, e2)"
      by (simp add: re_search_Some_iff)
    then show "\<exists>e. re_search db abspath_pattern tx = Some (s, e)" ..
  qed
  have 3: "(re_search db abspath_pattern tx = None) = (\<forall>s e. \<not> guard_at db tx s e)"
  proof
    assume r: "re_search db abspath_pattern tx = None"
    show "\<forall>s e. \<not> guard_at db tx s e"
    proof (intro allI notI)
      fix s e assume g: "guard_at db tx s e"
      then have sl: "s \<le> length tx" by (rule guard_at_start)
      with r have "?M s = None" by (simp add: re_search_None_iff)
      with none [OF sl] g show False by simp
    qed
  next
    assume "\<forall>s e. \<not> guard_at db tx s e"
    then show "re_search db abspath_pattern tx = None"
      by (simp add: re_search_None_iff none)
  qed
  from 1 2 3 show ?thesis by simp
qed

theorem C4_guard_offset_witness:
  "re_search ascii_db abspath_pattern (py ''if (!'' @ mismatched_guard @ py '')'') = Some (5, 23) \<and>
   guard_at ascii_db (py ''if (!'' @ mismatched_guard @ py '')'') 5 23"
proof -
  have r: "re_search ascii_db abspath_pattern (py ''if (!'' @ mismatched_guard @ py '')'') = Some (5, 23)"
    by code_simp
  from C4_guard_offset [of ascii_db "py ''if (!'' @ mismatched_guard @ py '')''" 5 23] r
  show ?thesis by simp
qed

text \<open>
  C4 as first stated asks for the closing quote to be the opening one. The pattern
  has two independent classes \<open>[\'"]\<close>: \<open>defined('ABSPATH")\<close> matches.
\<close>

theorem C4_mismatched_quotes_counterexample:
  "re_search ascii_db abspath_pattern mismatched_guard = Some (0, 18)"
  by code_simp

text \<open>
  C5. A line the walker prints is the joined path of an enumerated file whose name
  ends with \<open>.php\<close> and is not \<open>index.php\<close>. For any other name the loop body
  leaves the world as it is, whatever the file holds; this is so for
  \<open>index.php\<close>. Dropping all such names from the walk does not change the run.
\<close>

theorem C5_candidates_only:
  "(line \<in> set (printed db walk w) \<longrightarrow>
      (\<exists>(d, f) \<in> entries walk.
         endswith f (py ''.php'') \<and> f \<noteq> py ''index.php'' \<and> line = os_path_join d f)) \<and>
   (\<not> (endswith filename (py ''.php'') \<and> filename \<noteq> py ''index.php'') \<longrightarrow>
      walk_file db dirpath filename w = w) \<and>
   walk_file db dirpath (py ''index.php'') w = w \<and>
   walker db walk w =
     walker db
       (map (\<lambda>(d, ds, fs). (d, ds, filter (\<lambda>f. endswith f (py ''.php'') \<and> f \<noteq> py ''index.php'') fs))
          walk) w"
proof -
  have a: "line \<in> set (printed db walk w) \<longrightarrow>
      (\<exists>(d, f) \<in> entries walk.
         endswith f (py ''.php'') \<and> f \<noteq> py ''index.php'' \<and> line = os_path_join d f)"
    by (auto simp: set_printed flagged_def)
  have b: "\<And>f. \<not> (endswith f (py ''.php'') \<and> f \<noteq> py ''index.php'') \<Longrightarrow>
      walk_file db dirpath f w = w"
    by (auto simp: walk_file_def)
  have fl: "\<And>d. (\<lambda>f. endswith f (py ''.php'') \<and> f \<noteq> py ''index.php'' \<and> flagged db w d f)
      = flagged db w d"
    by (auto simp: flagged_def)
  have c: "walker db walk w =
     walker db
       (map (\<lambda>(d, ds, fs). (d, ds, filter (\<lambda>f. endswith f (py ''.php'') \<and> f \<noteq> py ''index.php'') fs))
          walk) w"
    by (simp add: walker_eq comp_def case_prod_unfold fl)
  from a b [of filename] b [of "py ''index.php''"] c show ?thesis by simp
qed

theorem C5_candidates_only_witness:
  "py ''src/a.php'' \<in> set (printed ascii_db [(py ''src'', [], [py ''index.php'', py ''a.php''])] violating_tree) \<and>
   \<not> (endswith (py ''index.php'') (py ''.php'') \<and> py ''index.php'' \<noteq> py ''index.php'') \<and>
   (\<exists>(d, f) \<in> entries [(py ''src'', [], [py ''index.php'', py ''a.php''])].
       endswith f (py ''.php'') \<and> f \<noteq> py ''index.php'' \<and> py ''src/a.php'' = os_path_join d f) \<and>
   walk_file ascii_db (py ''src'') (py ''index.php'') violating_tree = violating_tree"
proof -
  have h: "py ''src/a.php'' \<in> set (printed ascii_db [(py ''src'', [], [py ''index.php'', py ''a.php''])] violating_tree)"
    by code_simp
  have n: "\<not> (endswith (py ''index.php'') (py ''.php'') \<and> py ''index.php'' \<noteq> py ''index.php'')"
    by simp
  from C5_candidates_only [of "py ''src/a.php''" ascii_db "[(py ''src'', [], [py ''index.php'', py ''a.php''])]"
      violating_tree "py ''index.php''" "py ''src''"] h n
  show ?thesis by simp
qed

text \<open>
  C6. When opening, reading or decoding a candidate raises, \<open>check_file\<close> returns
  \<open>None\<close> and the world unchanged, the loop body prints nothing, and both loops go
  on exactly as if the file were not listed; its path is never printed. (The
  exceptions are those below \<open>Exception\<close>, which \<open>except Exception\<close> catches.)
\<close>

theorem C6_read_failure_skipped:
  assumes "files w (os_path_join dirpath filename) = Inl exn"
  shows "check_file db (os_path_join dirpath filename) w = (None, w) \<and>
         walk_file db dirpath filename w = w \<and>
         walk_files db dirpath (before @ filename # after) w =
           walk_files db dirpath (before @ after) w \<and>
         walker db (pre @ (dirpath, dirnames, before @ filename # after) # post) w =
           walker db (pre @ (dirpath, dirnames, before @ after) # post) w \<and>
         os_path_join dirpath filename \<notin> set (printed db walk w)"
proof -
  let ?p = "os_path_join dirpath filename"
  from assms have c: "check_file db ?p w = (None, w)"
    by (simp add: check_file_def)
  then have nf: "\<And>d f. os_path_join d f = ?p \<Longrightarrow> \<not> flagged db w d f"
    by (simp add: flagged_def)
  then have nf': "\<not> flagged db w dirpath filename" by simp
  from nf' have 1: "walk_file db dirpath filename w = w" by (simp add: walk_file_eq)
  from nf' have 2: "walk_files db dirpath (before @ filename # after) w =
           walk_files db dirpath (before @ after) w"
    by (simp add: walk_files_eq)
  from nf' have 3: "walker db (pre @ (dirpath, dirnames, before @ filename # after) # post) w =
           walker db (pre @ (dirpath, dirnames, before @ after) # post) w"
    by (simp add: walker_eq)
  from nf have 4: "?p \<notin> set (printed db walk w)"
    by (auto simp: set_printed)
  from c 1 2 3 4 show ?thesis by simp
qed

theorem C6_read_failure_skipped_witness:
  "files unreadable_tree (os_path_join (py ''src'') (py ''b.php'')) = Inl UnicodeDecodeError \<and>
   check_file ascii_db (os_path_join (py ''src'') (py ''b.php'')) unreadable_tree = (None, unreadable_tree) \<and>
   printed ascii_db [(py ''src'', [], [py ''b.php'', py ''a.php''])] unreadable_tree = [py ''src/a.php'']"
proof -
  have f: "files unreadable_tree (os_path_join (py ''src'') (py ''b.php'')) = Inl UnicodeDecodeError"
    by code_simp
  have p: "printed ascii_db [(py ''src'', [], [py ''b.php'', py ''a.php''])] unreadable_tree = [py ''src/a.php'']"
    by code_simp
  from C6_read_failure_skipped [OF f] f p show ?thesis by simp
qed

text \<open>
  C7. A file with the text of scenario A is flagged: \<open>check_file\<close> returns its path
  and the walker prints it. A file with the text of scenario B is not flagged.
\<close>

theorem C7_scenarios:
  "fst (check_file db filepath (one_file filepath scenario_A)) = Some filepath \<and>
   fst (check_file db filepath (one_file filepath scenario_B)) = None \<and>
   printed db [(py ''src'', [], [py ''a.php''])] (one_file (py ''src/a.php'') scenario_A)
     = [py ''src/a.php''] \<and>
   printed db [(py ''src'', [], [py ''a.php''])] (one_file (py ''src/a.php'') scenario_B) = []"
proof -
  have a: "detection_rule db scenario_A filepath = Some filepath"
    unfolding detection_rule_eq by code_simp
  have b: "detection_rule db scenario_B filepath = None"
    unfolding detection_rule_eq by code_simp
  have 1: "fst (check_file db filepath (one_file filepath scenario_A)) = Some filepath"
    by (simp add: check_file_def one_file_def a)
  have 2: "fst (check_file db filepath (one_file filepath scenario_B)) = None"
    by (simp add: check_file_def one_file_def b)
  have 3: "printed db [(py ''src'', [], [py ''a.php''])] (one_file (py ''src/a.php'') scenario_A)
     = [py ''src/a.php'']"
    by code_simp
  have 4: "printed db [(py ''src'', [], [py ''a.php''])] (one_file (py ''src/a.php'') scenario_B) = []"
    by code_simp
  from 1 2 3 4 show ?thesis by simp
qed

text \<open>
  C8. \<open>check_file\<close> leaves the world as it found it, and whether it flags a file
  is determined by the text read alone: two evaluations on the same text agree,
  in whatever world and under whatever path the text was read.
\<close>

theorem C8_pure_function:
  "snd (check_file db filepath w) = w \<and>
   (files w1 p1 = Inr content \<and> files w2 p2 = Inr content \<longrightarrow>
      (fst (check_file db p1 w1) = Some p1) = (fst (check_file db p2 w2) = Some p2) \<and>
      (fst (check_file db p1 w1) = None) = (fst (check_file db p2 w2) = None)) \<and>
   (files w1 p1 = Inr content \<and> files w2 p1 = Inr content \<longrightarrow>
      fst (check_file db p1 w1) = fst (check_file db p1 w2))"
  by (auto simp: check_file_def detection_rule_def Let_def split: sum.splits)

theorem C8_pure_function_witness:
  "files (one_file (py ''src/a.php'') scenario_A) (py ''src/a.php'') = Inr scenario_A \<and>
   files unreadable_tree (py ''src/a.php'') = Inr scenario_A \<and>
   fst (check_file ascii_db (py ''src/a.php'') (one_file (py ''src/a.php'') scenario_A)) =
     fst (check_file ascii_db (py ''src/a.php'') unreadable_tree)"
proof -
  have 1: "files (one_file (py ''src/a.php'') scenario_A) (py ''src/a.php'') = Inr scenario_A"
    by (simp add: one_file_def)
  have 2: "files unreadable_tree (py ''src/a.php'') = Inr scenario_A"
    by (simp add: unreadable_tree_def)
  from C8_pure_function [of ascii_db "py ''src/a.php''" unreadable_tree
      "one_file (py ''src/a.php'') scenario_A" "py ''src/a.php''" scenario_A
      unreadable_tree "py ''src/a.php''"] 1 2
  show ?thesis by simp
qed

text \<open>
  C9. The walker does not change the files. Two runs over the same files that
  enumerate the same \<open>(dirpath, filename)\<close> pairs, in whatever order, print the
  same set of paths; this holds for a second run started after the first.
\<close>

theorem C9_idempotent:
  "files (walker db walk1 w) = files w \<and>
   (entries walk1 = entries walk2 \<longrightarrow>
      set (printed db walk2 (walker db walk1 w)) = set (printed db walk1 w)) \<and>
   (entries walk1 = entries walk2 \<and> files w1 = files w2 \<longrightarrow>
      set (printed db walk1 w1) = set (printed db walk2 w2))"
proof -
  have f: "files (walker db walk1 w) = files w" by (simp add: walker_eq)
  have g: "set (printed db walk1 wa) = set (printed db walk2 wb)"
    if "entries walk1 = entries walk2" and "files wa = files wb" for wa wb
  proof -
    from that(2) have "flagged db wa = flagged db wb" by (rule flagged_files)
    with that(1) show ?thesis by (simp add: set_printed)
  qed
  have h: "set (printed db walk2 (walker db walk1 w)) = set (printed db walk1 w)"
    if "entries walk1 = entries walk2"
    using g [OF that, of w "walker db walk1 w"] f by simp
  from f g h show ?thesis by blast
qed

theorem C9_idempotent_witness:
  "entries [(py ''src'', [py ''sub''], [py ''b.php'', py ''a.php'']), (py ''src/sub'', [], [py ''c.php''])] =
   entries [(py ''src'', [py ''sub''], [py ''a.php'', py ''b.php'']), (py ''src/sub'', [], [py ''c.php''])] \<and>
   set (printed ascii_db
          [(py ''src'', [py ''sub''], [py ''a.php'', py ''b.php'']), (py ''src/sub'', [], [py ''c.php''])]
          (walker ascii_db
             [(py ''src'', [py ''sub''], [py ''b.php'', py ''a.php'']), (py ''src/sub'', [], [py ''c.php''])]
             unreadable_tree)) =
   set (printed ascii_db
          [(py ''src'', [py ''sub''], [py ''b.php'', py ''a.php'']), (py ''src/sub'', [], [py ''c.php''])]
          unreadable_tree)"
proof -
  have e: "entries [(py ''src'', [py ''sub''], [py ''b.php'', py ''a.php'']), (py ''src/sub'', [], [py ''c.php''])] =
   entries [(py ''src'', [py ''sub''], [py ''a.php'', py ''b.php'']), (py ''src/sub'', [], [py ''c.php''])]"
    by (auto simp: entries_def)
  from C9_idempotent [of ascii_db
      "[(py ''src'', [py ''sub''], [py ''b.php'', py ''a.php'']), (py ''src/sub'', [], [py ''c.php''])]"
      unreadable_tree
      "[(py ''src'', [py ''sub''], [py ''a.php'', py ''b.php'']), (py ''src/sub'', [], [py ''c.php''])]"
      unreadable_tree unreadable_tree] e
  show ?thesis by simp
qed

text \<open>
  C10. \<open>check_file\<close> returns \<open>None\<close> or exactly the path it was given. Every line
  the walker prints is the joined path of an enumerated file, and it is what
  \<open>check_file\<close> returned for that very path.
\<close>

theorem C10_path_unchanged:
  "(fst (check_file db filepath w) = None \<or> fst (check_file db filepath w) = Some filepath) \<and>
   (line \<in> set (printed db walk w) \<longrightarrow>
      (\<exists>(d, f) \<in> entries walk.
         line = os_path_join d f \<and> fst (check_file db (os_path_join d f) w) = Some line))"
proof -
  have "line \<in> set (printed db walk w) \<longrightarrow>
      (\<exists>(d, f) \<in> entries walk.
         line = os_path_join d f \<and> fst (check_file db (os_path_join d f) w) = Some line)"
    by (auto simp: set_printed flagged_def)
  with check_file_cases [of db filepath w] show ?thesis by simp
qed

theorem C10_path_unchanged_witness:
  "py ''src/a.php'' \<in> set (printed ascii_db [(py ''src'', [], [py ''b.php'', py ''a.php''])] unreadable_tree) \<and>
   (\<exists>(d, f) \<in> entries [(py ''src'', [], [py ''b.php'', py ''a.php''])].
         py ''src/a.php'' = os_path_join d f \<and>
         fst (check_file ascii_db (os_path_join d f) unreadable_tree) = Some (py ''src/a.php''))"
proof -
  have h: "py ''src/a.php'' \<in> set (printed ascii_db [(py ''src'', [], [py ''b.php'', py ''a.php''])] unreadable_tree)"
    by code_simp
  from C10_path_unchanged [of ascii_db "py ''src/a.php''" unreadable_tree "py ''src/a.php''"
     "[(py ''src'', [], [py ''b.php'', py ''a.php''])]"] h
  show ?thesis by simp
qed

end
